theory Spec2Isabelle
  imports Main "HOL-Library.Word"
begin

section \<open>JavaScript values\<close>

text \<open>
  A JavaScript string is a sequence of UTF-16 code units; \<open>charCodeAt\<close> and indexing read
  one unit. \<open>str\<close> turns an ASCII literal into such a string.
\<close>

type_synonym jschar = "16 word"
type_synonym jsstring = "jschar list"

definition ch :: "char \<Rightarrow> jschar" where
  "ch c = of_char c"

definition str :: "string \<Rightarrow> jsstring" where
  "str s = map ch s"

datatype js_value =
    JSUndefined
  | JSNull
  | JSBoolean bool
  | JSNumber int
  | JSString jsstring
  | JSObject

fun typeof :: "js_value \<Rightarrow> string" where
  "typeof JSUndefined = ''undefined''"
| "typeof JSNull = ''object''"
| "typeof (JSBoolean b) = ''boolean''"
| "typeof (JSNumber n) = ''number''"
| "typeof (JSString s) = ''string''"
| "typeof JSObject = ''object''"

subsection \<open>String methods used by the sources\<close>

text \<open>\<open>s.indexOf(c, from)\<close> for a one-character needle; \<open>None\<close> is the result \<open>-1\<close>.\<close>

fun firstIndex :: "jschar \<Rightarrow> jsstring \<Rightarrow> nat option" where
  "firstIndex c [] = None"
| "firstIndex c (x # xs) = (if x = c then Some 0 else map_option Suc (firstIndex c xs))"

definition indexOf :: "jsstring \<Rightarrow> jschar \<Rightarrow> nat \<Rightarrow> nat option" where
  "indexOf s c from = map_option (\<lambda>i. from + i) (firstIndex c (drop from s))"

text \<open>\<open>s.substring(a, b)\<close>: both indices are clamped to the length and swapped when \<open>a > b\<close>.\<close>

definition substring :: "jsstring \<Rightarrow> nat \<Rightarrow> nat \<Rightarrow> jsstring" where
  "substring s a b =
     (let a' = min a (length s); b' = min b (length s)
      in take (max a' b' - min a' b') (drop (min a' b') s))"

definition startsWith :: "jsstring \<Rightarrow> jsstring \<Rightarrow> bool" where
  "startsWith s p = (take (length p) s = p)"

definition endsWith :: "jsstring \<Rightarrow> jsstring \<Rightarrow> bool" where
  "endsWith s p = (length p \<le> length s \<and> drop (length s - length p) s = p)"

text \<open>\<open>s.slice(0, -1)\<close>: the string without its last unit.\<close>

definition slice_0_minus1 :: "jsstring \<Rightarrow> jsstring" where
  "slice_0_minus1 s = butlast s"

section \<open>filter\_precompiler.js\<close>

definition MAX_FILTER_LENGTH :: nat where
  "MAX_FILTER_LENGTH = 1000"

datatype rule_action = Block | Allow

text \<open>
  A rule object as handed to the blocking engine. A compiled rule carries \<open>urlFilter\<close>,
  a session rule \<open>initiatorDomains\<close> or \<open>requestDomains\<close>; a key that the object literal
  does not have is \<open>None\<close>.
\<close>

record rule_condition =
  urlFilter :: "jsstring option"
  initiatorDomains :: "jsstring list option"
  requestDomains :: "jsstring list option"
  resourceTypes :: "string list"

record dnr_rule =
  rule_id :: nat
  priority :: nat
  action :: rule_action
  condition :: rule_condition

definition allResourceTypes :: "string list" where
  "allResourceTypes =
     [''main_frame'', ''sub_frame'', ''stylesheet'', ''script'', ''image'', ''font'',
      ''object'', ''xmlhttprequest'', ''ping'', ''csp_report'', ''media'', ''websocket'', ''other'']"

text \<open>
  The argument \<open>options\<close>; an absent key is \<open>None\<close>. Identifiers and counters are
  naturals: the interface gives them as unsigned 32-bit values, far below the range
  where JavaScript numbers stop being exact.
\<close>

record options =
  startId :: "nat option"
  opt_priority :: "nat option"

text \<open>\<open>x || 1\<close> on an optional number: undefined and 0 are falsy.\<close>

fun or_1 :: "nat option \<Rightarrow> nat" where
  "or_1 None = 1"
| "or_1 (Some n) = (if n = 0 then 1 else n)"

record counters =
  processedRules :: nat
  skippedLines :: nat
  errors :: nat

record CompilationStats = counters +
  totalLines :: nat

text \<open>The local variables of \<open>precompileFilterList\<close> that the loop changes.\<close>

record loop_vars = counters +
  lineStart :: nat
  ruleId :: nat
  rules :: "dnr_rule list"

text \<open>Lines 74 to 79: the end of the line that starts at \<open>lineStart\<close>, and the line.\<close>

definition lineEndOf :: "jsstring \<Rightarrow> nat \<Rightarrow> nat" where
  "lineEndOf filterText ls =
     (case indexOf filterText (ch CHR 0x0A) ls of None \<Rightarrow> length filterText | Some i \<Rightarrow> i)"

definition lineAt :: "jsstring \<Rightarrow> nat \<Rightarrow> jsstring" where
  "lineAt filterText ls =
     (let line = substring filterText ls (lineEndOf filterText ls)
      in if endsWith line [ch CHR 0x0D] then slice_0_minus1 line else line)"

text \<open>Lines 82 to 98: the two scanning loops and the trimmed line.\<close>

definition isBlank :: "jschar \<Rightarrow> bool" where
  "isBlank c = (c = ch CHR '' '' \<or> c = ch CHR 0x09 \<or> c = ch CHR 0x0D)"

function scanStart :: "jsstring \<Rightarrow> nat \<Rightarrow> nat \<Rightarrow> nat" where
  "scanStart line start end =
     (if start < end \<and> isBlank (line ! start) then scanStart line (Suc start) end else start)"
  by pat_completeness auto
termination
  by (relation "measure (\<lambda>(line, start, end). end - start)") auto

function scanEnd :: "jsstring \<Rightarrow> nat \<Rightarrow> nat \<Rightarrow> nat" where
  "scanEnd line start end =
     (if end > start \<and> isBlank (line ! (end - 1)) then scanEnd line start (end - 1) else end)"
  by pat_completeness auto
termination
  by (relation "measure (\<lambda>(line, start, end). end)") auto

declare scanStart.simps [simp del] scanEnd.simps [simp del]

definition trimLine :: "jsstring \<Rightarrow> jsstring" where
  "trimLine line =
     (let start = scanStart line 0 (length line);
          end = scanEnd line start (length line)
      in if start > 0 \<or> end < length line then substring line start end else line)"

text \<open>Lines 116 to 122: the scan of the domain for a forbidden character.\<close>

fun isValid :: "jsstring \<Rightarrow> bool" where
  "isValid [] = True"
| "isValid (c # cs) =
     (if c = ch CHR ''*'' \<or> c = ch CHR ''/'' \<or> c = ch CHR 0x00 then False else isValid cs)"

text \<open>
  Lines 100 to 147, for one trimmed line. \<open>Next\<close> falls through to the assignment
  \<open>lineStart = lineEnd + 1\<close> at the end of the loop body; \<open>Continue\<close> is the
  \<open>continue\<close> statement of line 111, which jumps to the loop test and so leaves
  \<open>lineStart\<close> as it is. Nothing inside the \<open>try\<close> block can throw (it only reads
  strings and pushes onto an array), so the \<open>catch\<close> branch has no equation.
\<close>

datatype flow = Next loop_vars | Continue loop_vars

definition isComment :: "jsstring \<Rightarrow> bool" where
  "isComment trimmed =
     (trimmed = [] \<or> hd trimmed = ch CHR ''#'' \<or> hd trimmed = ch CHR ''!''
      \<or> hd trimmed = ch CHR ''['')"

definition isAnchored :: "jsstring \<Rightarrow> bool" where
  "isAnchored trimmed =
     (length trimmed > 4 \<and> startsWith trimmed (str ''||'') \<and> endsWith trimmed (str ''^''))"

definition domainOf :: "jsstring \<Rightarrow> jsstring" where
  "domainOf trimmed = substring trimmed 2 (length trimmed - 1)"

definition newRule :: "nat \<Rightarrow> nat \<Rightarrow> jsstring \<Rightarrow> dnr_rule" where
  "newRule i p trimmed =
     \<lparr>rule_id = i, priority = p, action = Block,
      condition = \<lparr>urlFilter = Some trimmed, initiatorDomains = None, requestDomains = None,
                   resourceTypes = allResourceTypes\<rparr>\<rparr>"

definition processLine :: "nat \<Rightarrow> jsstring \<Rightarrow> loop_vars \<Rightarrow> flow" where
  "processLine templatePriority trimmed v =
     (if isComment trimmed then Next (v\<lparr>skippedLines := skippedLines v + 1\<rparr>)
      else if isAnchored trimmed then
        (let domain = domainOf trimmed in
         if length domain = 0 \<or> length domain > MAX_FILTER_LENGTH
         then Continue (v\<lparr>skippedLines := skippedLines v + 1\<rparr>)
         else if isValid domain
         then Next (v\<lparr>rules := rules v @ [newRule (ruleId v) templatePriority trimmed],
                       ruleId := ruleId v + 1,
                       processedRules := processedRules v + 1\<rparr>)
         else Next (v\<lparr>skippedLines := skippedLines v + 1\<rparr>))
      else Next (v\<lparr>skippedLines := skippedLines v + 1\<rparr>))"

text \<open>One pass through the body of the \<open>while\<close> loop (lines 73 to 149).\<close>

definition loopBody :: "jsstring \<Rightarrow> nat \<Rightarrow> loop_vars \<Rightarrow> loop_vars" where
  "loopBody filterText templatePriority v =
     (case processLine templatePriority (trimLine (lineAt filterText (lineStart v))) v of
        Next v' \<Rightarrow> v'\<lparr>lineStart := lineEndOf filterText (lineStart v) + 1\<rparr>
      | Continue v' \<Rightarrow> v')"

text \<open>
  The \<open>while\<close> loop of line 72. It need not terminate, so it is a partial function:
  \<open>None\<close> says that the loop runs forever.
\<close>

partial_function (option) scanLines :: "jsstring \<Rightarrow> nat \<Rightarrow> loop_vars \<Rightarrow> loop_vars option" where
  "scanLines filterText templatePriority v =
     (if lineStart v < length filterText
      then scanLines filterText templatePriority (loopBody filterText templatePriority v)
      else Some v)"

definition initialVars :: "options \<Rightarrow> loop_vars" where
  "initialVars opts =
     \<lparr>processedRules = 0, skippedLines = 0, errors = 0,
      lineStart = 0, ruleId = or_1 (startId opts), rules = []\<rparr>"

definition statsOf :: "loop_vars \<Rightarrow> CompilationStats" where
  "statsOf v =
     \<lparr>processedRules = processedRules v, skippedLines = skippedLines v, errors = errors v,
      totalLines = processedRules v + skippedLines v\<rparr>"

text \<open>
  The function itself. The outer \<open>option\<close> is \<open>None\<close> when the call never returns;
  \<open>Inl\<close> is the thrown \<open>Error\<close> with its message, \<open>Inr\<close> the returned object
  \<open>{ rules, stats }\<close>.
\<close>

definition precompileFilterList ::
  "js_value \<Rightarrow> options \<Rightarrow> (string + dnr_rule list \<times> CompilationStats) option" where
  "precompileFilterList filterText opts =
     (case filterText of
        JSString text \<Rightarrow>
          (if length text = 0
           then Some (Inr ([], \<lparr>processedRules = 0, skippedLines = 0, errors = 0, totalLines = 0\<rparr>))
           else (case scanLines text (or_1 (opt_priority opts)) (initialVars opts) of
                   None \<Rightarrow> None
                 | Some v \<Rightarrow> Some (Inr (rules v, statsOf v))))
      | _ \<Rightarrow> Some (Inl ''Filter text must be a string''))"

subsection \<open>The lines of the input, as a list\<close>

text \<open>
  The loop walks the text by index. The same walk on lists: a line ends at the first
  line feed, the next one starts behind it, and a text that ends in a line feed has no
  further line after it. \<open>spec_trim\<close> removes space, tab and carriage return from
  both ends, which is what the specification asks of the trimming.
\<close>

function logicalLines :: "jsstring \<Rightarrow> jsstring list" where
  "logicalLines text =
     (if text = [] then []
      else takeWhile (\<lambda>c. c \<noteq> ch CHR 0x0A) text
           # logicalLines (drop (Suc (length (takeWhile (\<lambda>c. c \<noteq> ch CHR 0x0A) text))) text))"
  by pat_completeness auto
termination
  by (relation "measure length") auto

declare logicalLines.simps [simp del]

definition spec_trim :: "jsstring \<Rightarrow> jsstring" where
  "spec_trim l = rev (dropWhile isBlank (rev (dropWhile isBlank l)))"

definition trimmedLines :: "jsstring \<Rightarrow> jsstring list" where
  "trimmedLines text = map spec_trim (logicalLines text)"

text \<open>
  The trimmed lines that reach \<open>rules.push\<close>, and those that reach the
  \<open>continue\<close> of line 111.
\<close>

definition accepted :: "jsstring \<Rightarrow> bool" where
  "accepted trimmed =
     (\<not> isComment trimmed \<and> isAnchored trimmed \<and> length (domainOf trimmed) \<noteq> 0
      \<and> length (domainOf trimmed) \<le> MAX_FILTER_LENGTH \<and> isValid (domainOf trimmed))"

definition overlong :: "jsstring \<Rightarrow> bool" where
  "overlong trimmed =
     (\<not> isComment trimmed \<and> isAnchored trimmed
      \<and> length (domainOf trimmed) > MAX_FILTER_LENGTH)"

text \<open>The rules for a list of accepted lines, numbered upwards from \<open>i\<close>.\<close>

fun numbered :: "nat \<Rightarrow> nat \<Rightarrow> jsstring list \<Rightarrow> dnr_rule list" where
  "numbered i p [] = []"
| "numbered i p (t # ts) = newRule i p t # numbered (Suc i) p ts"

text \<open>
  A text of two lines: a pattern whose domain has 1001 characters, one more than
  \<open>MAX_FILTER_LENGTH\<close>, and a well-formed pattern.
\<close>

definition overlongLine :: jsstring where
  "overlongLine = str ''||'' @ replicate 1001 (ch CHR ''a'') @ str ''^''"

definition overlongText :: jsstring where
  "overlongText = overlongLine @ [ch CHR 0x0A] @ str ''||ads.example.com^''"

section \<open>background.js\<close>

subsection \<open>hashCode\<close>

text \<open>
  \<open>hash << 5\<close> and \<open>hash & hash\<close> convert their operand to a signed 32-bit integer;
  the subtraction and the addition between them are exact. \<open>Math.abs\<close> of the final
  value is at most \<open>2 ^ 31\<close>.
\<close>

definition toInt32 :: "int \<Rightarrow> int" where
  "toInt32 x = (x + 2 ^ 31) mod 2 ^ 32 - 2 ^ 31"

fun hashLoop :: "int \<Rightarrow> jsstring \<Rightarrow> int" where
  "hashLoop hash [] = hash"
| "hashLoop hash (c # cs) = hashLoop (toInt32 ((toInt32 (hash * 2 ^ 5) - hash) + uint c)) cs"

definition hashCode :: "jsstring \<Rightarrow> nat" where
  "hashCode s = nat \<bar>hashLoop 0 s\<bar>"

subsection \<open>The worker's surroundings\<close>

text \<open>
  What the worker reads and writes: the keys of \<open>chrome.storage.local\<close> it uses
  (\<open>None\<close> for a key never set), the engine's table of session rules, the enabled static
  rulesets, and whether the variable \<open>statsCache\<close> holds a value. Storage calls are
  taken to succeed; \<open>Date.now()\<close> is the argument \<open>now\<close> of each operation.
\<close>

record world =
  isEnabled :: "bool option"
  lastUpdate :: "nat option"
  version :: "string option"
  disabledDomains :: "jsstring list option"
  sessionRules :: "dnr_rule list"
  enabledRulesets :: "string list"
  statsCached :: bool

record session_update =
  removeRuleIds :: "nat list"
  addRules :: "dnr_rule list"

record ruleset_update =
  enableRulesetIds :: "string list"
  disableRulesetIds :: "string list"

text \<open>
  The host engine is no part of the repository. Its calls are parameters of the model:
  each takes the request and the engine's state and either rejects with a message
  (\<open>Inl\<close>), leaving the state as it was, or resolves with the new state.
  \<open>tabsReload\<close> is \<open>chrome.tabs.reload\<close>: \<open>Some\<close> message when it rejects.
\<close>

record adapter =
  updateSessionRules :: "session_update \<Rightarrow> dnr_rule list \<Rightarrow> string + dnr_rule list"
  updateEnabledRulesets :: "ruleset_update \<Rightarrow> string list \<Rightarrow> string + string list"
  tabsReload :: "nat \<Rightarrow> string option"

text \<open>
  An asynchronous function either resolves or rejects; in both cases the effects it had
  until then remain.
\<close>

datatype outcome = Resolved world | Rejected string world

fun world_of :: "outcome \<Rightarrow> world" where
  "world_of (Resolved w) = w"
| "world_of (Rejected e w) = w"

text \<open>\<open>try { ... } catch (error) { console.error(...) }\<close>: the rejection ends there.\<close>

fun catch_and_log :: "outcome \<Rightarrow> outcome" where
  "catch_and_log (Resolved w) = Resolved w"
| "catch_and_log (Rejected e w) = Resolved w"

subsection \<open>toggleRuleset, the global switch\<close>

definition toggleRuleset_try :: "adapter \<Rightarrow> nat \<Rightarrow> bool \<Rightarrow> world \<Rightarrow> outcome" where
  "toggleRuleset_try A now istAktiviert w =
     (case updateEnabledRulesets A
             \<lparr>enableRulesetIds = (if istAktiviert then [''ruleset_1''] else []),
              disableRulesetIds = (if istAktiviert then [] else [''ruleset_1''])\<rparr>
             (enabledRulesets w) of
        Inl e \<Rightarrow> Rejected e w
      | Inr rs \<Rightarrow>
          Resolved (w\<lparr>enabledRulesets := rs, isEnabled := Some istAktiviert,
                      lastUpdate := Some now\<rparr>))"

definition toggleRuleset :: "adapter \<Rightarrow> nat \<Rightarrow> bool \<Rightarrow> world \<Rightarrow> outcome" where
  "toggleRuleset A now istAktiviert w = catch_and_log (toggleRuleset_try A now istAktiviert w)"

subsection \<open>updateSessionRulesForDomain\<close>

definition allowRule :: "nat \<Rightarrow> rule_condition \<Rightarrow> dnr_rule" where
  "allowRule i c = \<lparr>rule_id = i, priority = 100000, action = Allow, condition = c\<rparr>"

definition fromDomain :: "jsstring \<Rightarrow> rule_condition" where
  "fromDomain domain =
     \<lparr>urlFilter = None, initiatorDomains = Some [domain], requestDomains = None,
      resourceTypes = allResourceTypes\<rparr>"

definition toDomain :: "jsstring \<Rightarrow> rule_condition" where
  "toDomain domain =
     \<lparr>urlFilter = None, initiatorDomains = None, requestDomains = Some [domain],
      resourceTypes = allResourceTypes\<rparr>"

text \<open>One awaited call of \<open>chrome.declarativeNetRequest.updateSessionRules\<close>.\<close>

definition callSessionRules :: "adapter \<Rightarrow> session_update \<Rightarrow> world \<Rightarrow> outcome" where
  "callSessionRules A u w =
     (case updateSessionRules A u (sessionRules w) of
        Inl e \<Rightarrow> Rejected e w
      | Inr table \<Rightarrow> Resolved (w\<lparr>sessionRules := table\<rparr>))"

definition updateSessionRulesForDomain_try :: "adapter \<Rightarrow> jsstring \<Rightarrow> bool \<Rightarrow> world \<Rightarrow> outcome" where
  "updateSessionRulesForDomain_try A domain istAktiviert w =
     (let regelId = hashCode domain in
      if istAktiviert then
        (let subdomainRegelId = regelId + 1 in
         callSessionRules A \<lparr>removeRuleIds = [regelId, subdomainRegelId], addRules = []\<rparr> w)
      else
        (case callSessionRules A
                \<lparr>removeRuleIds = [], addRules = [allowRule regelId (fromDomain domain)]\<rparr> w of
           Rejected e w1 \<Rightarrow> Rejected e w1
         | Resolved w1 \<Rightarrow>
             (let subdomainRegelId = regelId + 1 in
              callSessionRules A
                \<lparr>removeRuleIds = [], addRules = [allowRule subdomainRegelId (toDomain domain)]\<rparr>
                w1)))"

definition updateSessionRulesForDomain :: "adapter \<Rightarrow> jsstring \<Rightarrow> bool \<Rightarrow> world \<Rightarrow> outcome" where
  "updateSessionRulesForDomain A domain istAktiviert w =
     catch_and_log (updateSessionRulesForDomain_try A domain istAktiviert w)"

subsection \<open>toggleRulesetFuerDomain\<close>

text \<open>\<open>result.disabledDomains || []\<close>, the list every reader of the key works with.\<close>

definition exemptionSet :: "world \<Rightarrow> jsstring list" where
  "exemptionSet w = (case disabledDomains w of None \<Rightarrow> [] | Some ds \<Rightarrow> ds)"

definition toggleRulesetFuerDomain_try :: "adapter \<Rightarrow> nat \<Rightarrow> jsstring \<Rightarrow> bool \<Rightarrow> world \<Rightarrow> outcome" where
  "toggleRulesetFuerDomain_try A now domain istAktiviert w =
     (let deaktivierteDomains = exemptionSet w;
          deaktivierteDomains' =
            (if istAktiviert then filter (\<lambda>d. d \<noteq> domain) deaktivierteDomains
             else if domain \<in> set deaktivierteDomains then deaktivierteDomains
             else deaktivierteDomains @ [domain])
      in updateSessionRulesForDomain A domain istAktiviert
           (w\<lparr>disabledDomains := Some deaktivierteDomains', lastUpdate := Some now\<rparr>))"

definition toggleRulesetFuerDomain :: "adapter \<Rightarrow> nat \<Rightarrow> jsstring \<Rightarrow> bool \<Rightarrow> world \<Rightarrow> outcome" where
  "toggleRulesetFuerDomain A now domain istAktiviert w =
     catch_and_log (toggleRulesetFuerDomain_try A now domain istAktiviert w)"

subsection \<open>Start of the worker\<close>

definition initialisieren :: "adapter \<Rightarrow> nat \<Rightarrow> string \<Rightarrow> world \<Rightarrow> outcome" where
  "initialisieren A now manifestVersion w =
     toggleRuleset A now True
       (w\<lparr>isEnabled := Some True, lastUpdate := Some now, version := Some manifestVersion\<rparr>)"

text \<open>The listener of \<open>chrome.runtime.onStartup\<close>.\<close>

definition onStartup :: "adapter \<Rightarrow> nat \<Rightarrow> world \<Rightarrow> outcome" where
  "onStartup A now w =
     (let istAktiviert = (isEnabled w \<noteq> Some False) in toggleRuleset A now istAktiviert w)"

subsection \<open>handleToggleBlocking\<close>

record toggle_request =
  req_isEnabled :: js_value
  req_domain :: "jsstring option"
  req_tabId :: "nat option"

datatype response = ErrorResponse string | SuccessResponse bool

text \<open>The body of the \<open>try\<close> block, up to the point where the cache is cleared.\<close>

definition handleToggleBlocking_try :: "adapter \<Rightarrow> nat \<Rightarrow> toggle_request \<Rightarrow> bool \<Rightarrow> world \<Rightarrow> outcome" where
  "handleToggleBlocking_try A now request b w =
     (case req_domain request of
        None \<Rightarrow> toggleRuleset A now b w
      | Some domain \<Rightarrow>
          if domain = [] then toggleRuleset A now b w
          else
            (case toggleRulesetFuerDomain A now domain b w of
               Rejected e w1 \<Rightarrow> Rejected e w1
             | Resolved w1 \<Rightarrow>
                 (case req_tabId request of
                    None \<Rightarrow> Resolved w1
                  | Some tabId \<Rightarrow>
                      if tabId = 0 then Resolved w1
                      else (case tabsReload A tabId of
                              Some e \<Rightarrow> Rejected e w1
                            | None \<Rightarrow> Resolved w1))))"

definition handleToggleBlocking :: "adapter \<Rightarrow> nat \<Rightarrow> toggle_request \<Rightarrow> world \<Rightarrow> response \<times> world" where
  "handleToggleBlocking A now request w =
     (case req_isEnabled request of
        JSBoolean b \<Rightarrow>
          (case handleToggleBlocking_try A now request b w of
             Resolved w' \<Rightarrow> (SuccessResponse b, w'\<lparr>statsCached := False\<rparr>)
           | Rejected e w' \<Rightarrow> (ErrorResponse e, w'))
      | _ \<Rightarrow> (ErrorResponse (''Ung'' @ [CHR 0xC3, CHR 0xBC] @ ''ltige Anfrage''), w))"

subsection \<open>The engine's contract for session rules\<close>

text \<open>
  Modelled from the spec: the Blocking-Engine Adapter is the browser's engine, which the
  repository calls and does not contain. The specification says of it that an add for
  an id that already exists is rejected or is a no-op, and that removing an id that
  does not exist is a no-op. \<open>spec_updateSessionRules\<close> does the removals, then the
  additions; \<open>duplicates\<close> chooses between the two readings of the first sentence.
\<close>

datatype duplicates = Rejects | Ignores

fun addEach :: "duplicates \<Rightarrow> dnr_rule list \<Rightarrow> dnr_rule list \<Rightarrow> string + dnr_rule list" where
  "addEach pol [] table = Inr table"
| "addEach pol (r # rs) table =
     (if rule_id r \<in> rule_id ` set table
      then (case pol of Rejects \<Rightarrow> Inl ''rule id is not unique'' | Ignores \<Rightarrow> addEach pol rs table)
      else addEach pol rs (table @ [r]))"

definition spec_updateSessionRules ::
  "duplicates \<Rightarrow> session_update \<Rightarrow> dnr_rule list \<Rightarrow> string + dnr_rule list" where
  "spec_updateSessionRules pol u table =
     addEach pol (addRules u) (filter (\<lambda>r. rule_id r \<notin> set (removeRuleIds u)) table)"

text \<open>
  Modelled from the spec: enabling and disabling static rulesets, of which the
  specification names the calls only. The listed rulesets are disabled, then enabled.
\<close>

definition spec_updateEnabledRulesets :: "ruleset_update \<Rightarrow> string list \<Rightarrow> string + string list" where
  "spec_updateEnabledRulesets u enabled =
     Inr (filter (\<lambda>r. r \<notin> set (disableRulesetIds u)) enabled
          @ filter (\<lambda>r. r \<notin> set enabled) (enableRulesetIds u))"

definition spec_adapter :: "duplicates \<Rightarrow> adapter" where
  "spec_adapter pol =
     \<lparr>updateSessionRules = spec_updateSessionRules pol,
      updateEnabledRulesets = spec_updateEnabledRulesets,
      tabsReload = (\<lambda>tabId. None)\<rparr>"

text \<open>An engine whose session-rule calls all reject.\<close>

definition failing_adapter :: adapter where
  "failing_adapter =
     \<lparr>updateSessionRules = (\<lambda>u table. Inl ''session rules unavailable''),
      updateEnabledRulesets = spec_updateEnabledRulesets,
      tabsReload = (\<lambda>tabId. None)\<rparr>"

text \<open>
  The state \<open>Blocked\<close> of a domain, as the specification has it: the domain is not in
  the exemption list and no override rule exists for it, that is, no session rule names
  it as initiator or as target.
\<close>

definition namesDomain :: "jsstring \<Rightarrow> dnr_rule \<Rightarrow> bool" where
  "namesDomain domain r =
     ((case initiatorDomains (condition r) of None \<Rightarrow> False | Some ds \<Rightarrow> domain \<in> set ds)
      \<or> (case requestDomains (condition r) of None \<Rightarrow> False | Some ds \<Rightarrow> domain \<in> set ds))"

definition isBlocked :: "jsstring \<Rightarrow> world \<Rightarrow> bool" where
  "isBlocked domain w =
     (domain \<notin> set (exemptionSet w) \<and> filter (namesDomain domain) (sessionRules w) = [])"

text \<open>
  The two ids of a domain are free when no session rule, of whatever domain, carries
  one of them.
\<close>

definition idsFree :: "jsstring \<Rightarrow> world \<Rightarrow> bool" where
  "idsFree domain w =
     (filter (\<lambda>r. rule_id r = hashCode domain \<or> rule_id r = hashCode domain + 1)
        (sessionRules w) = [])"

definition freshWorld :: world where
  "freshWorld =
     \<lparr>isEnabled = None, lastUpdate = None, version = None, disabledDomains = None,
      sessionRules = [], enabledRulesets = [''ruleset_1''], statsCached = False\<rparr>"

text \<open>
  Modelled from the spec: a restart of the browser, which the repository does not
  contain. The specification says that the engine's table of session rules does not
  persist across restarts while the stored exemption list does; the variables of the
  worker start afresh.
\<close>

definition browserRestart :: "world \<Rightarrow> world" where
  "browserRestart w = w\<lparr>sessionRules := [], statsCached := False\<rparr>"

subsection \<open>Two toggles at once\<close>

text \<open>
  \<open>toggleRulesetFuerDomain\<close> gives up control at each \<open>await\<close>: after it has asked for
  the stored list, after it has asked for the write, and after each call of the engine.
  Between two of these points nothing else runs. One toggle is therefore a sequence of
  steps: the read resolves with the list that is stored at that moment; the write stores
  the mutation of the list that was read, with the time stamp of the call; the engine
  steps are the calls of \<open>updateSessionRulesForDomain\<close>, the second of which is skipped
  once the first has thrown. The local variables of a call are the list it has read
  (\<open>None\<close> before the read) and whether the engine has thrown.
\<close>

datatype caller = CallerA | CallerB

datatype toggle_step = ReadStorage | WriteStorage | EngineFirst | EngineSecond

record toggle_call =
  call_now :: nat
  call_domain :: jsstring
  call_enabled :: bool

record toggle_locals =
  seenDomains :: "jsstring list option"
  thrown :: bool

definition mutated :: "toggle_call \<Rightarrow> jsstring list \<Rightarrow> jsstring list" where
  "mutated c deaktivierteDomains =
     (if call_enabled c then filter (\<lambda>d. d \<noteq> call_domain c) deaktivierteDomains
      else if call_domain c \<in> set deaktivierteDomains then deaktivierteDomains
      else deaktivierteDomains @ [call_domain c])"

definition firstUpdate :: "toggle_call \<Rightarrow> session_update" where
  "firstUpdate c =
     (if call_enabled c
      then \<lparr>removeRuleIds = [hashCode (call_domain c), hashCode (call_domain c) + 1], addRules = []\<rparr>
      else \<lparr>removeRuleIds = [],
            addRules = [allowRule (hashCode (call_domain c)) (fromDomain (call_domain c))]\<rparr>)"

definition secondUpdate :: "toggle_call \<Rightarrow> session_update" where
  "secondUpdate c =
     \<lparr>removeRuleIds = [],
      addRules = [allowRule (hashCode (call_domain c) + 1) (toDomain (call_domain c))]\<rparr>"

definition engineCall :: "adapter \<Rightarrow> session_update \<Rightarrow> toggle_locals \<times> world \<Rightarrow> toggle_locals \<times> world" where
  "engineCall A u lw =
     (case callSessionRules A u (snd lw) of
        Resolved w' \<Rightarrow> (fst lw, w')
      | Rejected e w' \<Rightarrow> ((fst lw)\<lparr>thrown := True\<rparr>, w'))"

fun toggleStep :: "adapter \<Rightarrow> toggle_call \<Rightarrow> toggle_step \<Rightarrow> toggle_locals \<times> world \<Rightarrow> toggle_locals \<times> world" where
  "toggleStep A c ReadStorage (l, w) = (l\<lparr>seenDomains := Some (exemptionSet w)\<rparr>, w)"
| "toggleStep A c WriteStorage (l, w) =
     (case seenDomains l of
        None \<Rightarrow> (l, w)
      | Some ds \<Rightarrow> (l, w\<lparr>disabledDomains := Some (mutated c ds), lastUpdate := Some (call_now c)\<rparr>))"
| "toggleStep A c EngineFirst (l, w) = engineCall A (firstUpdate c) (l, w)"
| "toggleStep A c EngineSecond (l, w) =
     (if thrown l then (l, w) else engineCall A (secondUpdate c) (l, w))"

definition stepsOf :: "toggle_call \<Rightarrow> toggle_step list" where
  "stepsOf c =
     (if call_enabled c then [ReadStorage, WriteStorage, EngineFirst]
      else [ReadStorage, WriteStorage, EngineFirst, EngineSecond])"

text \<open>
  Two callers, each with its call and its local variables, work on one storage and one
  engine. A schedule is a list of steps, each marked with its caller; an interleaving of
  the two calls is a shuffle of their two programs.
\<close>

definition program :: "caller \<Rightarrow> toggle_call \<Rightarrow> (caller \<times> toggle_step) list" where
  "program who c = map (Pair who) (stepsOf c)"

record conf =
  shared :: world
  localsA :: toggle_locals
  localsB :: toggle_locals

definition start :: "world \<Rightarrow> conf" where
  "start w =
     \<lparr>shared = w,
      localsA = \<lparr>seenDomains = None, thrown = False\<rparr>,
      localsB = \<lparr>seenDomains = None, thrown = False\<rparr>\<rparr>"

fun schedStep :: "adapter \<Rightarrow> toggle_call \<Rightarrow> toggle_call \<Rightarrow> conf \<Rightarrow> caller \<times> toggle_step \<Rightarrow> conf" where
  "schedStep A callA callB cf (CallerA, st) =
     (case toggleStep A callA st (localsA cf, shared cf) of (l, w) \<Rightarrow> cf\<lparr>shared := w, localsA := l\<rparr>)"
| "schedStep A callA callB cf (CallerB, st) =
     (case toggleStep A callB st (localsB cf, shared cf) of (l, w) \<Rightarrow> cf\<lparr>shared := w, localsB := l\<rparr>)"

definition runSchedule ::
  "adapter \<Rightarrow> toggle_call \<Rightarrow> toggle_call \<Rightarrow> (caller \<times> toggle_step) list \<Rightarrow> conf \<Rightarrow> conf" where
  "runSchedule A callA callB s cf = foldl (schedStep A callA callB) cf s"

text \<open>
  What the storage steps read and write: the stored list, the stored time stamp and the
  list each caller has read. The engine steps leave all of it alone.
\<close>

record storage_view =
  storedList :: "jsstring list option"
  storedTime :: "nat option"
  seenA :: "jsstring list option"
  seenB :: "jsstring list option"

definition viewOf :: "conf \<Rightarrow> storage_view" where
  "viewOf cf =
     \<lparr>storedList = disabledDomains (shared cf), storedTime = lastUpdate (shared cf),
      seenA = seenDomains (localsA cf), seenB = seenDomains (localsB cf)\<rparr>"

definition listOf :: "jsstring list option \<Rightarrow> jsstring list" where
  "listOf x = (case x of None \<Rightarrow> [] | Some ds \<Rightarrow> ds)"

fun viewStep :: "toggle_call \<Rightarrow> toggle_call \<Rightarrow> storage_view \<Rightarrow> caller \<times> toggle_step \<Rightarrow> storage_view" where
  "viewStep callA callB v (CallerA, ReadStorage) = v\<lparr>seenA := Some (listOf (storedList v))\<rparr>"
| "viewStep callA callB v (CallerB, ReadStorage) = v\<lparr>seenB := Some (listOf (storedList v))\<rparr>"
| "viewStep callA callB v (CallerA, WriteStorage) =
     (case seenA v of None \<Rightarrow> v
      | Some ds \<Rightarrow> v\<lparr>storedList := Some (mutated callA ds), storedTime := Some (call_now callA)\<rparr>)"
| "viewStep callA callB v (CallerB, WriteStorage) =
     (case seenB v of None \<Rightarrow> v
      | Some ds \<Rightarrow> v\<lparr>storedList := Some (mutated callB ds), storedTime := Some (call_now callB)\<rparr>)"
| "viewStep callA callB v (who, EngineFirst) = v"
| "viewStep callA callB v (who, EngineSecond) = v"

fun isStorageStep :: "caller \<times> toggle_step \<Rightarrow> bool" where
  "isStorageStep (who, ReadStorage) = True"
| "isStorageStep (who, WriteStorage) = True"
| "isStorageStep (who, EngineFirst) = False"
| "isStorageStep (who, EngineSecond) = False"

text \<open>
  A state with two exempted domains, a call that exempts \<open>x.com\<close> and one that blocks it
  again, and an interleaving in which the second call reads and writes between the read
  and the write of the first.
\<close>

definition twoExempted :: world where
  "twoExempted =
     world_of (toggleRulesetFuerDomain (spec_adapter Rejects) 2 (str ''y.org'') False
       (world_of (toggleRulesetFuerDomain (spec_adapter Rejects) 1 (str ''x.com'') False freshWorld)))"

definition callDisable :: toggle_call where
  "callDisable = \<lparr>call_now = 3, call_domain = str ''x.com'', call_enabled = False\<rparr>"

definition callEnable :: toggle_call where
  "callEnable = \<lparr>call_now = 4, call_domain = str ''x.com'', call_enabled = True\<rparr>"

definition staleSchedule :: "(caller \<times> toggle_step) list" where
  "staleSchedule =
     [(CallerA, ReadStorage), (CallerB, ReadStorage), (CallerB, WriteStorage),
      (CallerB, EngineFirst), (CallerA, WriteStorage), (CallerA, EngineFirst),
      (CallerA, EngineSecond)]"

subsection \<open>The pattern validator in the specification's words\<close>

text \<open>
  The specification calls a trimmed line a well-formed domain pattern when it is longer
  than four characters, starts with \<open>||\<close>, ends with \<open>^\<close>, and the part strictly
  between the anchors is non-empty, no longer than the maximum, and free of \<open>*\<close>,
  \<open>/\<close> and the null character.
\<close>

definition spec_body :: "jsstring \<Rightarrow> jsstring" where
  "spec_body t = butlast (drop 2 t)"

definition spec_wellFormed :: "jsstring \<Rightarrow> bool" where
  "spec_wellFormed t =
     (length t > 4 \<and> take 2 t = str ''||'' \<and> last t = ch CHR ''^''
      \<and> spec_body t \<noteq> [] \<and> length (spec_body t) \<le> MAX_FILTER_LENGTH
      \<and> list_all (\<lambda>c. c \<noteq> ch CHR ''*'' \<and> c \<noteq> ch CHR ''/'' \<and> c \<noteq> ch CHR 0x00) (spec_body t))"

section \<open>Facts about the string methods and the trimming loops\<close>

lemmas eval_line = trimmedLines_def logicalLines.simps spec_trim_def isBlank_def str_def ch_def
  accepted_def overlong_def isComment_def isAnchored_def domainOf_def substring_def
  startsWith_def endsWith_def MAX_FILTER_LENGTH_def

lemma firstIndex_eq:
  "firstIndex c xs = (if c \<in> set xs then Some (length (takeWhile (\<lambda>x. x \<noteq> c) xs)) else None)"
  by (induction xs) auto

lemma takeWhile_neq_less: "c \<in> set xs \<Longrightarrow> length (takeWhile (\<lambda>x. x \<noteq> c) xs) < length xs"
  by (induction xs) auto

lemma takeWhile_neq_all: "c \<notin> set xs \<Longrightarrow> length (takeWhile (\<lambda>x. x \<noteq> c) xs) = length xs"
  by (induction xs) auto

lemma lineEndOf_eq:
  "lineEndOf text ls = min (length text) (ls + length (takeWhile (\<lambda>x. x \<noteq> ch CHR 0x0A) (drop ls text)))"
proof (cases "ch CHR 0x0A \<in> set (drop ls text)")
  case True
  then have "length (takeWhile (\<lambda>x. x \<noteq> ch CHR 0x0A) (drop ls text)) < length (drop ls text)"
    by (rule takeWhile_neq_less)
  with True show ?thesis
    by (simp add: lineEndOf_def indexOf_def firstIndex_eq)
next
  case False
  then have "length (takeWhile (\<lambda>x. x \<noteq> ch CHR 0x0A) (drop ls text)) = length text - ls"
    by (simp add: takeWhile_neq_all)
  with False show ?thesis
    by (simp add: lineEndOf_def indexOf_def firstIndex_eq)
qed

lemma substring_le: "a \<le> b \<Longrightarrow> b \<le> length s \<Longrightarrow> substring s a b = take (b - a) (drop a s)"
  by (simp add: substring_def)

lemma scanStart_eq:
  "s \<le> e \<Longrightarrow> e \<le> length line \<Longrightarrow>
   scanStart line s e = s + length (takeWhile isBlank (take (e - s) (drop s line)))"
proof (induction line s e rule: scanStart.induct)
  case (1 line start end')
  show ?case
  proof (cases "start < end' \<and> isBlank (line ! start)")
    case True
    then have lt: "start < length line" using "1.prems" by simp
    have split: "take (end' - start) (drop start line)
                 = line ! start # take (end' - Suc start) (drop (Suc start) line)"
      using True lt by (simp add: Cons_nth_drop_Suc [symmetric] take_Cons')
    from True "1.prems" have "scanStart line (Suc start) end'
          = Suc start + length (takeWhile isBlank (take (end' - Suc start) (drop (Suc start) line)))"
      by (intro "1.IH") auto
    with True split show ?thesis by (subst scanStart.simps) simp
  next
    case False
    show ?thesis
    proof (cases "start < end'")
      case True
      with False have nb: "\<not> isBlank (line ! start)" by simp
      have lt: "start < length line" using True "1.prems" by simp
      have split: "take (end' - start) (drop start line)
                 = line ! start # take (end' - Suc start) (drop (Suc start) line)"
        using True lt by (simp add: Cons_nth_drop_Suc [symmetric] take_Cons')
      from False nb split show ?thesis by (subst scanStart.simps) simp
    next
      case False
      then show ?thesis by (subst scanStart.simps) simp
    qed
  qed
qed

lemma scanEnd_eq:
  "s \<le> e \<Longrightarrow> e \<le> length line \<Longrightarrow>
   scanEnd line s e = e - length (takeWhile isBlank (rev (take (e - s) (drop s line))))"
proof (induction line s e rule: scanEnd.induct)
  case (1 line start end')
  show ?case
  proof (cases "end' > start")
    case False
    then show ?thesis by (subst scanEnd.simps) simp
  next
    case True
    then obtain n where n: "end' - start = Suc n" by (cases "end' - start") auto
    have idx: "start + n = end' - 1" using n by simp
    have lt: "n < length (drop start line)" using n "1.prems" by simp
    have split: "take (end' - start) (drop start line)
                 = take n (drop start line) @ [line ! (end' - 1)]"
      using lt idx n "1.prems" by (simp add: take_Suc_conv_app_nth)
    show ?thesis
    proof (cases "isBlank (line ! (end' - 1))")
      case False
      with split show ?thesis by (subst scanEnd.simps) simp
    next
      case b: True
      have n': "end' - 1 - start = n" using n by simp
      from True b "1.prems" have "scanEnd line start (end' - 1)
          = (end' - 1) - length (takeWhile isBlank (rev (take (end' - 1 - start) (drop start line))))"
        by (intro "1.IH") auto
      with True b split n' show ?thesis by (subst scanEnd.simps) simp
    qed
  qed
qed

text \<open>The two scanning loops and the \<open>substring\<close> call trim both ends.\<close>

lemma trimLine_eq: "trimLine line = spec_trim line"
proof -
  define start where "start = scanStart line 0 (length line)"
  define end' where "end' = scanEnd line start (length line)"
  define d where "d = dropWhile isBlank line"
  define k where "k = length (takeWhile isBlank (rev d))"
  have start: "start = length (takeWhile isBlank line)"
    unfolding start_def by (simp add: scanStart_eq)
  then have sl: "start \<le> length line" by (simp add: length_takeWhile_le)
  have dd: "drop start line = d"
    unfolding start d_def by (simp add: dropWhile_eq_drop)
  have ld: "length d = length line - start" using dd [symmetric] by simp
  have end': "end' = length line - k"
    unfolding end'_def k_def using sl ld by (simp add: scanEnd_eq dd)
  have kd: "k \<le> length d" unfolding k_def by (metis length_takeWhile_le length_rev)
  have se: "start \<le> end'" using end' kd ld sl by simp
  have "substring line start end' = take (end' - start) d"
    using se end' dd by (simp add: substring_le)
  also have "end' - start = length d - k" using end' ld by simp
  also have "take (length d - k) d = rev (drop k (rev d))"
    by (simp add: rev_drop kd)
  also have "drop k (rev d) = dropWhile isBlank (rev d)"
    unfolding k_def by (simp add: dropWhile_eq_drop)
  finally have sub: "substring line start end' = spec_trim line"
    by (simp add: spec_trim_def d_def)
  have tl: "trimLine line = (if start > 0 \<or> end' < length line then substring line start end' else line)"
    unfolding trimLine_def Let_def end'_def start_def by (rule refl)
  show ?thesis
  proof (cases "start > 0 \<or> end' < length line")
    case True
    then show ?thesis using sub tl by simp
  next
    case False
    then have "start = 0" "end' = length line" using se end' by auto
    then have "substring line start end' = line" by (simp add: substring_le)
    with False sub tl show ?thesis by simp
  qed
qed

lemma spec_trim_snoc_blank: "isBlank c \<Longrightarrow> spec_trim (xs @ [c]) = spec_trim xs"
proof (cases "\<forall>x\<in>set xs. isBlank x")
  case True
  assume c: "isBlank c"
  from True have b: "dropWhile isBlank xs = []" by simp
  from True c have a: "dropWhile isBlank (xs @ [c]) = []" by simp
  show ?thesis by (simp only: spec_trim_def a b)
next
  case False
  assume c: "isBlank c"
  from False have "dropWhile isBlank (xs @ [c]) = dropWhile isBlank xs @ [c]"
    by (auto simp: dropWhile_append1)
  with c show ?thesis by (simp add: spec_trim_def)
qed

text \<open>
  The line that the loop body reads at \<open>lineStart\<close>, trimmed, is the trimmed first line of
  the rest of the text; the carriage return that line 79 removes is one that the trimming
  removes as well.
\<close>

lemma lineAt_trim:
  assumes "ls \<le> length text"
  shows "trimLine (lineAt text ls) = spec_trim (takeWhile (\<lambda>c. c \<noteq> ch CHR 0x0A) (drop ls text))"
proof -
  define fl where "fl = takeWhile (\<lambda>c. c \<noteq> ch CHR 0x0A) (drop ls text)"
  have n: "length fl \<le> length text - ls"
    unfolding fl_def by (metis length_takeWhile_le length_drop)
  have le: "lineEndOf text ls = ls + length fl"
    using n assms by (simp add: lineEndOf_eq fl_def [symmetric])
  have sub: "substring text ls (lineEndOf text ls) = fl"
    using n assms le by (simp add: substring_le fl_def takeWhile_eq_take [symmetric])
  show ?thesis
  proof (cases "endsWith fl [ch CHR 0x0D]")
    case False
    then show ?thesis by (simp add: lineAt_def sub trimLine_eq fl_def)
  next
    case True
    then have "fl \<noteq> []" and "last fl = ch CHR 0x0D"
      by (auto simp: endsWith_def last_conv_nth nth_via_drop Suc_le_eq dest!: sym [of _ "[ch CHR 0x0D]"])
    then have "fl = butlast fl @ [ch CHR 0x0D]" by (metis append_butlast_last_id)
    then have "spec_trim fl = spec_trim (butlast fl)"
      by (metis spec_trim_snoc_blank isBlank_def)
    with True show ?thesis
      by (simp add: lineAt_def sub trimLine_eq slice_0_minus1_def fl_def)
  qed
qed

lemma lineEndOf_within:
  assumes "ls < length text"
  shows "lineEndOf text ls = ls + length (takeWhile (\<lambda>c. c \<noteq> ch CHR 0x0A) (drop ls text))"
proof -
  have "length (takeWhile (\<lambda>c. c \<noteq> ch CHR 0x0A) (drop ls text)) \<le> length text - ls"
    by (metis length_takeWhile_le length_drop)
  then show ?thesis using assms by (simp add: lineEndOf_eq)
qed

lemma lineEnd_advance:
  assumes "ls < length text"
  shows "drop (lineEndOf text ls + 1) text
         = drop (Suc (length (takeWhile (\<lambda>c. c \<noteq> ch CHR 0x0A) (drop ls text)))) (drop ls text)"
    and "ls < lineEndOf text ls + 1"
proof -
  have n: "length (takeWhile (\<lambda>c. c \<noteq> ch CHR 0x0A) (drop ls text)) \<le> length text - ls"
    by (metis length_takeWhile_le length_drop)
  then have le: "lineEndOf text ls = ls + length (takeWhile (\<lambda>c. c \<noteq> ch CHR 0x0A) (drop ls text))"
    using assms by (simp add: lineEndOf_eq)
  show "drop (lineEndOf text ls + 1) text
         = drop (Suc (length (takeWhile (\<lambda>c. c \<noteq> ch CHR 0x0A) (drop ls text)))) (drop ls text)"
    by (simp add: le add.commute)
  show "ls < lineEndOf text ls + 1" by (simp add: le)
qed

lemma trimmedLines_Nil: "trimmedLines [] = []"
  by (simp add: trimmedLines_def logicalLines.simps)

lemma trimmedLines_drop:
  assumes "ls < length text"
  shows "trimmedLines (drop ls text)
         = spec_trim (takeWhile (\<lambda>c. c \<noteq> ch CHR 0x0A) (drop ls text)) # trimmedLines (drop (lineEndOf text ls + 1) text)"
proof -
  from assms have "drop ls text \<noteq> []" by simp
  then show ?thesis
    unfolding trimmedLines_def
    by (subst logicalLines.simps) (simp add: lineEndOf_within [OF assms] add.commute)
qed

lemma first_trimmed_line:
  "text \<noteq> [] \<Longrightarrow> spec_trim (takeWhile (\<lambda>c. c \<noteq> ch CHR 0x0A) text) \<in> set (trimmedLines text)"
  unfolding trimmedLines_def by (subst logicalLines.simps) simp

lemma takeWhile_replicate_append:
  "P x \<Longrightarrow> takeWhile P (replicate n x @ ys) = replicate n x @ takeWhile P ys"
  by (induction n) auto

section \<open>One line, one pass of the loop\<close>

lemma anchored_domain_length:
  "isAnchored t \<Longrightarrow> length (domainOf t) = length t - 3"
  by (auto simp: isAnchored_def domainOf_def substring_def)

lemma processLine_overlong:
  "overlong t \<Longrightarrow> processLine p t v = Continue (v\<lparr>skippedLines := skippedLines v + 1\<rparr>)"
  by (simp add: processLine_def overlong_def Let_def)

lemma processLine_accepted:
  "accepted t \<Longrightarrow> processLine p t v =
     Next (v\<lparr>rules := rules v @ [newRule (ruleId v) p t], ruleId := ruleId v + 1,
             processedRules := processedRules v + 1\<rparr>)"
  by (simp add: processLine_def accepted_def Let_def)

lemma processLine_skipped:
  "\<not> accepted t \<Longrightarrow> \<not> overlong t \<Longrightarrow>
   processLine p t v = Next (v\<lparr>skippedLines := skippedLines v + 1\<rparr>)"
  using anchored_domain_length [of t]
  by (auto simp: processLine_def accepted_def overlong_def Let_def isAnchored_def)

text \<open>
  The three outcomes above are the validator of the specification: a line reaches
  \<open>rules.push\<close> exactly when it is no comment and a well-formed domain pattern.
\<close>

lemma isValid_iff:
  "isValid d = list_all (\<lambda>c. c \<noteq> ch CHR ''*'' \<and> c \<noteq> ch CHR ''/'' \<and> c \<noteq> ch CHR 0x00) d"
  by (induction d) auto

lemma endsWith_single: "endsWith t [c] = (t \<noteq> [] \<and> last t = c)"
proof (cases t rule: rev_cases)
  case Nil
  then show ?thesis by (simp add: endsWith_def)
next
  case (snoc ys y)
  then show ?thesis by (auto simp: endsWith_def)
qed

lemma domainOf_body: "length t > 4 \<Longrightarrow> domainOf t = spec_body t"
  by (simp add: domainOf_def spec_body_def substring_def butlast_conv_take numeral_3_eq_3)

lemma accepted_iff_wellFormed: "accepted t = (\<not> isComment t \<and> spec_wellFormed t)"
proof (cases "length t > 4")
  case False
  then show ?thesis by (simp add: accepted_def isAnchored_def spec_wellFormed_def)
next
  case True
  then have "t \<noteq> []" by auto
  with True show ?thesis
    by (auto simp: accepted_def isAnchored_def spec_wellFormed_def domainOf_body isValid_iff
        startsWith_def endsWith_single str_def numeral_2_eq_2)
qed

lemma loopBody_overlong:
  assumes "lineStart v \<le> length text" "overlong (spec_trim (takeWhile (\<lambda>c. c \<noteq> ch CHR 0x0A) (drop (lineStart v) text)))"
  shows "loopBody text p v = v\<lparr>skippedLines := skippedLines v + 1\<rparr>"
  using assms by (simp add: loopBody_def lineAt_trim processLine_overlong)

lemma loopBody_accepted:
  assumes "lineStart v \<le> length text" "accepted (spec_trim (takeWhile (\<lambda>c. c \<noteq> ch CHR 0x0A) (drop (lineStart v) text)))"
  shows "loopBody text p v =
     v\<lparr>rules := rules v @ [newRule (ruleId v) p (spec_trim (takeWhile (\<lambda>c. c \<noteq> ch CHR 0x0A) (drop (lineStart v) text)))],
       ruleId := ruleId v + 1, processedRules := processedRules v + 1,
       lineStart := lineEndOf text (lineStart v) + 1\<rparr>"
  using assms by (simp add: loopBody_def lineAt_trim processLine_accepted)

lemma loopBody_skipped:
  assumes "lineStart v \<le> length text"
    "\<not> accepted (spec_trim (takeWhile (\<lambda>c. c \<noteq> ch CHR 0x0A) (drop (lineStart v) text)))"
    "\<not> overlong (spec_trim (takeWhile (\<lambda>c. c \<noteq> ch CHR 0x0A) (drop (lineStart v) text)))"
  shows "loopBody text p v =
     v\<lparr>skippedLines := skippedLines v + 1, lineStart := lineEndOf text (lineStart v) + 1\<rparr>"
  using assms by (simp add: loopBody_def lineAt_trim processLine_skipped)

section \<open>The whole loop\<close>

text \<open>
  A pass that takes the \<open>continue\<close> of line 111 leaves \<open>lineStart\<close> where it was, so
  the next pass reads the same line again: from such a state the loop never ends.
\<close>

lemma scanLines_stuck:
  assumes "lineStart v < length text"
    and "overlong (spec_trim (takeWhile (\<lambda>c. c \<noteq> ch CHR 0x0A) (drop (lineStart v) text)))"
  shows "scanLines text p v = None"
proof (rule ccontr)
  assume "scanLines text p v \<noteq> None"
  then obtain r where r: "scanLines text p v = Some r" by auto
  have "\<not> (lineStart v < length text
            \<and> overlong (spec_trim (takeWhile (\<lambda>c. c \<noteq> ch CHR 0x0A) (drop (lineStart v) text))))"
  proof (rule scanLines.raw_induct
      [where P = "\<lambda>ft q w y. \<not> (lineStart w < length ft
            \<and> overlong (spec_trim (takeWhile (\<lambda>c. c \<noteq> ch CHR 0x0A) (drop (lineStart w) ft))))", OF _ r])
    fix scan ft q w y
    assume IH: "\<And>a b c z. scan a b c = Some z \<Longrightarrow>
        \<not> (lineStart c < length a \<and> overlong (spec_trim (takeWhile (\<lambda>c. c \<noteq> ch CHR 0x0A) (drop (lineStart c) a))))"
      and step: "(if lineStart w < length ft then scan ft q (loopBody ft q w) else Some w) = Some y"
    show "\<not> (lineStart w < length ft
            \<and> overlong (spec_trim (takeWhile (\<lambda>c. c \<noteq> ch CHR 0x0A) (drop (lineStart w) ft))))"
    proof
      assume st: "lineStart w < length ft
            \<and> overlong (spec_trim (takeWhile (\<lambda>c. c \<noteq> ch CHR 0x0A) (drop (lineStart w) ft)))"
      then have lb: "loopBody ft q w = w\<lparr>skippedLines := skippedLines w + 1\<rparr>"
        by (simp add: loopBody_overlong)
      from st step have "scan ft q (loopBody ft q w) = Some y" by simp
      from IH [OF this] st show False by (simp add: lb)
    qed
  qed
  with assms show False by simp
qed

text \<open>
  Without such a line the loop ends, with one rule per accepted line, in the order of the
  lines; with such a line anywhere in the rest of the text it does not end.
\<close>

lemma scanLines_returns:
  assumes "\<forall>t \<in> set (trimmedLines (drop (lineStart v) text)). \<not> overlong t"
  shows "\<exists>v'. scanLines text p v = Some v'
      \<and> rules v' = rules v @ numbered (ruleId v) p (filter accepted (trimmedLines (drop (lineStart v) text)))
      \<and> processedRules v' = processedRules v + length (filter accepted (trimmedLines (drop (lineStart v) text)))
      \<and> skippedLines v' = skippedLines v
           + length (filter (\<lambda>t. \<not> accepted t) (trimmedLines (drop (lineStart v) text)))
      \<and> errors v' = errors v"
  using assms
proof (induction "length text - lineStart v" arbitrary: v rule: less_induct)
  case less
  show ?case
  proof (cases "lineStart v < length text")
    case False
    then have "drop (lineStart v) text = []" by simp
    with False show ?thesis
      by (subst scanLines.simps) (simp add: trimmedLines_Nil)
  next
    case True
    define t where "t = spec_trim (takeWhile (\<lambda>c. c \<noteq> ch CHR 0x0A) (drop (lineStart v) text))"
    define w where "w = loopBody text p v"
    have tl: "trimmedLines (drop (lineStart v) text)
              = t # trimmedLines (drop (lineEndOf text (lineStart v) + 1) text)"
      unfolding t_def by (rule trimmedLines_drop [OF True])
    have nov: "\<not> overlong t" using less.prems tl by simp
    have le: "lineStart v \<le> length text" using True by simp
    have unfold: "scanLines text p v = scanLines text p w"
      using True by (subst scanLines.simps) (simp add: w_def)
    have adv: "lineStart v < lineEndOf text (lineStart v) + 1"
      by (rule lineEnd_advance(2) [OF True])
    show ?thesis
    proof (cases "accepted t")
      case acc: True
      have w: "w = v\<lparr>rules := rules v @ [newRule (ruleId v) p t],
                     ruleId := ruleId v + 1, processedRules := processedRules v + 1,
                     lineStart := lineEndOf text (lineStart v) + 1\<rparr>"
        unfolding w_def t_def using le acc [unfolded t_def] by (rule loopBody_accepted)
      have m: "length text - lineStart w < length text - lineStart v"
        using True adv by (simp add: w)
      have pre: "\<forall>t \<in> set (trimmedLines (drop (lineStart w) text)). \<not> overlong t"
        using less.prems tl by (simp add: w)
      from less.hyps [OF m pre] obtain v' where
        "scanLines text p w = Some v'"
        "rules v' = rules w @ numbered (ruleId w) p (filter accepted (trimmedLines (drop (lineStart w) text)))"
        "processedRules v' = processedRules w + length (filter accepted (trimmedLines (drop (lineStart w) text)))"
        "skippedLines v' = skippedLines w
           + length (filter (\<lambda>t. \<not> accepted t) (trimmedLines (drop (lineStart w) text)))"
        "errors v' = errors w"
        by blast
      then show ?thesis using acc unfold tl by (simp add: w)
    next
      case nacc: False
      have w: "w = v\<lparr>skippedLines := skippedLines v + 1,
                     lineStart := lineEndOf text (lineStart v) + 1\<rparr>"
        unfolding w_def using le nacc nov [unfolded t_def] unfolding t_def by (rule loopBody_skipped)
      have m: "length text - lineStart w < length text - lineStart v"
        using True adv by (simp add: w)
      have pre: "\<forall>t \<in> set (trimmedLines (drop (lineStart w) text)). \<not> overlong t"
        using less.prems tl by (simp add: w)
      from less.hyps [OF m pre] obtain v' where
        "scanLines text p w = Some v'"
        "rules v' = rules w @ numbered (ruleId w) p (filter accepted (trimmedLines (drop (lineStart w) text)))"
        "processedRules v' = processedRules w + length (filter accepted (trimmedLines (drop (lineStart w) text)))"
        "skippedLines v' = skippedLines w
           + length (filter (\<lambda>t. \<not> accepted t) (trimmedLines (drop (lineStart w) text)))"
        "errors v' = errors w"
        by blast
      then show ?thesis using nacc unfold tl by (simp add: w)
    qed
  qed
qed

lemma scanLines_diverges:
  assumes "\<exists>t \<in> set (trimmedLines (drop (lineStart v) text)). overlong t"
  shows "scanLines text p v = None"
  using assms
proof (induction "length text - lineStart v" arbitrary: v rule: less_induct)
  case less
  show ?case
  proof (cases "lineStart v < length text")
    case False
    then have "drop (lineStart v) text = []" by simp
    with less.prems show ?thesis by (simp add: trimmedLines_Nil)
  next
    case True
    define t where "t = spec_trim (takeWhile (\<lambda>c. c \<noteq> ch CHR 0x0A) (drop (lineStart v) text))"
    define w where "w = loopBody text p v"
    have tl: "trimmedLines (drop (lineStart v) text)
              = t # trimmedLines (drop (lineEndOf text (lineStart v) + 1) text)"
      unfolding t_def by (rule trimmedLines_drop [OF True])
    have le: "lineStart v \<le> length text" using True by simp
    have unfold: "scanLines text p v = scanLines text p w"
      using True by (subst scanLines.simps) (simp add: w_def)
    have adv: "lineStart v < lineEndOf text (lineStart v) + 1"
      by (rule lineEnd_advance(2) [OF True])
    show ?thesis
    proof (cases "overlong t")
      case True
      with \<open>lineStart v < length text\<close> show ?thesis
        unfolding t_def by (intro scanLines_stuck)
    next
      case nov: False
      have ls: "lineStart w = lineEndOf text (lineStart v) + 1"
      proof (cases "accepted t")
        case True
        then show ?thesis unfolding w_def t_def using le by (simp add: loopBody_accepted)
      next
        case False
        then show ?thesis unfolding w_def using le nov unfolding t_def by (simp add: loopBody_skipped)
      qed
      have m: "length text - lineStart w < length text - lineStart v"
        using True adv by (simp add: ls)
      have pre: "\<exists>t \<in> set (trimmedLines (drop (lineStart w) text)). overlong t"
        using less.prems tl nov by (simp add: ls)
      from less.hyps [OF m pre] unfold show ?thesis by simp
    qed
  qed
qed

lemma numbered_length: "length (numbered i p ts) = length ts"
  by (induction ts arbitrary: i) auto

lemma numbered_nth: "k < length ts \<Longrightarrow> numbered i p ts ! k = newRule (i + k) p (ts ! k)"
proof (induction ts arbitrary: i k)
  case Nil
  then show ?case by simp
next
  case (Cons t ts)
  then show ?case by (cases k) auto
qed

lemma precompile_returns:
  assumes "\<forall>t \<in> set (trimmedLines text). \<not> overlong t"
  shows "precompileFilterList (JSString text) opts =
           Some (Inr (numbered (or_1 (startId opts)) (or_1 (opt_priority opts))
                        (filter accepted (trimmedLines text)),
                      \<lparr>processedRules = length (filter accepted (trimmedLines text)),
                       skippedLines = length (filter (\<lambda>t. \<not> accepted t) (trimmedLines text)),
                       errors = 0,
                       totalLines = length (trimmedLines text)\<rparr>))"
proof (cases "text = []")
  case True
  then show ?thesis by (simp add: precompileFilterList_def trimmedLines_Nil)
next
  case False
  have pre: "\<forall>t \<in> set (trimmedLines (drop (lineStart (initialVars opts)) text)). \<not> overlong t"
    using assms by (simp add: initialVars_def)
  from scanLines_returns [OF pre, of "or_1 (opt_priority opts)"] obtain v' where
    v': "scanLines text (or_1 (opt_priority opts)) (initialVars opts) = Some v'"
      "rules v' = numbered (or_1 (startId opts)) (or_1 (opt_priority opts)) (filter accepted (trimmedLines text))"
      "processedRules v' = length (filter accepted (trimmedLines text))"
      "skippedLines v' = length (filter (\<lambda>t. \<not> accepted t) (trimmedLines text))"
      "errors v' = 0"
    by (auto simp: initialVars_def)
  have "length (filter accepted (trimmedLines text))
        + length (filter (\<lambda>t. \<not> accepted t) (trimmedLines text)) = length (trimmedLines text)"
    by (simp add: sum_length_filter_compl)
  with v' False show ?thesis
    by (simp add: precompileFilterList_def statsOf_def)
qed

lemma precompile_diverges:
  assumes "\<exists>t \<in> set (trimmedLines text). overlong t"
  shows "precompileFilterList (JSString text) opts = None"
proof -
  from assms have ne: "text \<noteq> []" by (auto simp: trimmedLines_Nil)
  have pre: "\<exists>t \<in> set (trimmedLines (drop (lineStart (initialVars opts)) text)). overlong t"
    using assms by (simp add: initialVars_def)
  from scanLines_diverges [OF pre] ne show ?thesis
    by (simp add: precompileFilterList_def)
qed

section \<open>Fail-fast on a non-string input\<close>

text \<open>
  C9. Whatever is not a string, \<open>null\<close> included, makes \<open>precompileFilterList\<close> throw
  the invalid-argument error: the result is the error alone, with no rule and no
  statistics, and the loop over the lines is never entered. The empty string is not an
  error: it returns the empty rule list with every statistic at zero.
\<close>

theorem precompile_non_string_fails_fast:
  "(typeof filterText \<noteq> ''string'' \<longrightarrow>
      precompileFilterList filterText opts = Some (Inl ''Filter text must be a string''))
   \<and> precompileFilterList JSNull opts = Some (Inl ''Filter text must be a string'')
   \<and> precompileFilterList (JSString []) opts =
       Some (Inr ([], \<lparr>processedRules = 0, skippedLines = 0, errors = 0, totalLines = 0\<rparr>))"
  by (cases filterText) (simp_all add: precompileFilterList_def)

theorem precompile_non_string_fails_fast_witness:
  "typeof (JSNumber 42) \<noteq> ''string''
   \<and> precompileFilterList (JSNumber 42) \<lparr>startId = Some 1, opt_priority = Some 1\<rparr>
       = Some (Inl ''Filter text must be a string'')"
  using precompile_non_string_fails_fast
    [of "JSNumber 42" "\<lparr>startId = Some 1, opt_priority = Some 1\<rparr>"]
  by simp

section \<open>A line with an over-long domain\<close>

lemma overlongText_first_line:
  "takeWhile (\<lambda>c. c \<noteq> ch CHR 0x0A) overlongText = overlongLine"
  by (simp add: overlongText_def overlongLine_def str_def ch_def takeWhile_replicate_append)

lemma overlongLine_trimmed: "spec_trim overlongLine = overlongLine"
  by (simp add: overlongLine_def spec_trim_def isBlank_def str_def ch_def)

lemma overlongLine_overlong: "overlong overlongLine"
  by (simp add: overlongLine_def eval_line)

lemma overlongText_second_line: "accepted (str ''||ads.example.com^'')"
  by (simp add: eval_line)

text \<open>
  C1. The claim: every logical line of the input is classified; a line is ignorable when
  it is empty or starts with \<open>#\<close>, \<open>!\<close> or \<open>[\<close>, it yields a rule exactly when it is a
  well-formed domain pattern, and every other line is rejected; ignorable and rejected
  lines increment \<open>skippedLines\<close> and yield no rule.

  For one line the code decides as claimed (\<open>processLine_accepted\<close>,
  \<open>processLine_skipped\<close>, \<open>accepted_iff_wellFormed\<close>). The rejection of a domain longer
  than \<open>MAX_FILTER_LENGTH\<close> however leaves the loop body through \<open>continue\<close>, before
  \<open>lineStart\<close> is advanced, so the loop reads the same line for ever. On
  \<open>overlongText\<close>, whose first line has a domain of 1001 characters and whose second line
  is a well-formed pattern, the first pass of the loop ends where it began, with
  \<open>lineStart = 0\<close>, and \<open>precompileFilterList\<close> never returns: the second line is never
  classified and yields no rule.
\<close>

theorem overlong_line_never_returns:
  "loopBody overlongText (or_1 (opt_priority opts)) (initialVars opts)
     = (initialVars opts)\<lparr>skippedLines := 1\<rparr>
   \<and> lineStart ((initialVars opts)\<lparr>skippedLines := 1\<rparr>) = 0
   \<and> precompileFilterList (JSString overlongText) opts = None"
proof (intro conjI)
  have stuck: "overlong (spec_trim (takeWhile (\<lambda>c. c \<noteq> ch CHR 0x0A)
                 (drop (lineStart (initialVars opts)) overlongText)))"
    by (simp add: initialVars_def overlongText_first_line overlongLine_trimmed
        overlongLine_overlong)
  show "loopBody overlongText (or_1 (opt_priority opts)) (initialVars opts)
     = (initialVars opts)\<lparr>skippedLines := 1\<rparr>"
    using loopBody_overlong [OF _ stuck] by (simp add: initialVars_def)
  show "lineStart ((initialVars opts)\<lparr>skippedLines := 1\<rparr>) = 0"
    by (simp add: initialVars_def)
  have ne: "overlongText \<noteq> []" by (simp add: overlongText_def)
  have "spec_trim (takeWhile (\<lambda>c. c \<noteq> ch CHR 0x0A) overlongText) \<in> set (trimmedLines overlongText)"
    using ne by (rule first_trimmed_line)
  then have "\<exists>t \<in> set (trimmedLines overlongText). overlong t"
    using overlongLine_overlong by (auto simp only: overlongText_first_line overlongLine_trimmed)
  then show "precompileFilterList (JSString overlongText) opts = None"
    by (rule precompile_diverges)
qed

section \<open>The rules that the compiler builds\<close>

text \<open>
  C8, as amended. Take any text and any options. If no trimmed line of the text has a
  domain longer than \<open>MAX_FILTER_LENGTH\<close>, \<open>precompileFilterList\<close> returns. Whenever it
  returns, it returns as many rules as \<open>processedRules\<close> says, one for each accepted
  line in the order of the lines, and rule number \<open>k\<close> (counted from 0 here) has the id
  \<open>(options.startId || 1) + k\<close>, the priority \<open>options.priority || 1\<close>, the action
  \<open>block\<close>, the trimmed line itself as \<open>urlFilter\<close>, and the fixed list of resource
  types. The claim as written promises the id \<open>options.startId + k\<close> and the priority
  \<open>options.priority\<close>, which fails when one of them is 0 or absent.
\<close>

theorem precompile_rule_construction:
  "((\<forall>t \<in> set (trimmedLines text). \<not> overlong t) \<longrightarrow>
      (\<exists>rs st. precompileFilterList (JSString text) opts = Some (Inr (rs, st))))
   \<and> (\<forall>rs st. precompileFilterList (JSString text) opts = Some (Inr (rs, st)) \<longrightarrow>
        length rs = processedRules st
        \<and> length rs = length (filter accepted (trimmedLines text))
        \<and> (\<forall>k < length rs.
              rule_id (rs ! k) = or_1 (startId opts) + k
              \<and> priority (rs ! k) = or_1 (opt_priority opts)
              \<and> action (rs ! k) = Block
              \<and> urlFilter (condition (rs ! k)) = Some (filter accepted (trimmedLines text) ! k)
              \<and> resourceTypes (condition (rs ! k)) = allResourceTypes))"
proof (intro conjI impI allI)
  assume "\<forall>t \<in> set (trimmedLines text). \<not> overlong t"
  then show "\<exists>rs st. precompileFilterList (JSString text) opts = Some (Inr (rs, st))"
    by (simp add: precompile_returns)
next
  fix rs st
  assume r: "precompileFilterList (JSString text) opts = Some (Inr (rs, st))"
  have nov: "\<forall>t \<in> set (trimmedLines text). \<not> overlong t"
  proof (rule ccontr)
    assume "\<not> ?thesis"
    then have "precompileFilterList (JSString text) opts = None"
      by (intro precompile_diverges) simp
    with r show False by simp
  qed
  from r precompile_returns [OF nov, of opts]
  have rs: "rs = numbered (or_1 (startId opts)) (or_1 (opt_priority opts))
                        (filter accepted (trimmedLines text))"
    and st: "processedRules st = length (filter accepted (trimmedLines text))"
    by auto
  show "length rs = processedRules st" by (simp add: rs st numbered_length)
  show "length rs = length (filter accepted (trimmedLines text))" by (simp add: rs numbered_length)
  fix k assume "k < length rs"
  then have k: "k < length (filter accepted (trimmedLines text))" by (simp add: rs numbered_length)
  show "rule_id (rs ! k) = or_1 (startId opts) + k"
    and "priority (rs ! k) = or_1 (opt_priority opts)"
    and "action (rs ! k) = Block"
    and "urlFilter (condition (rs ! k)) = Some (filter accepted (trimmedLines text) ! k)"
    and "resourceTypes (condition (rs ! k)) = allResourceTypes"
    using k by (simp_all add: rs numbered_nth newRule_def)
qed

theorem precompile_rule_construction_witness:
  "\<exists>rs st.
     precompileFilterList
       (JSString (str ''! list'' @ [ch CHR 0x0A] @ str ''||a.com^'' @ [ch CHR 0x0A]
                  @ str ''||*.x.com^'' @ [ch CHR 0x0A] @ str '' ||b.org^ '' @ [ch CHR 0x0D, ch CHR 0x0A]))
       \<lparr>startId = Some 7, opt_priority = Some 3\<rparr> = Some (Inr (rs, st))
     \<and> length rs = 2 \<and> processedRules st = 2
     \<and> rule_id (rs ! 0) = 7 \<and> rule_id (rs ! 1) = 8
     \<and> priority (rs ! 1) = 3 \<and> action (rs ! 1) = Block
     \<and> urlFilter (condition (rs ! 1)) = Some (str ''||b.org^'')"
proof -
  define T where "T = str ''! list'' @ [ch CHR 0x0A] @ str ''||a.com^'' @ [ch CHR 0x0A]
                  @ str ''||*.x.com^'' @ [ch CHR 0x0A] @ str '' ||b.org^ '' @ [ch CHR 0x0D, ch CHR 0x0A]"
  define opts0 where "opts0 = \<lparr>startId = Some 7, opt_priority = Some 3\<rparr>"
  have tl: "trimmedLines T = [str ''! list'', str ''||a.com^'', str ''||*.x.com^'', str ''||b.org^'']"
    unfolding T_def by (simp add: eval_line)
  have acc: "filter accepted (trimmedLines T) = [str ''||a.com^'', str ''||b.org^'']"
    unfolding tl by (simp add: eval_line)
  have nov: "\<forall>t \<in> set (trimmedLines T). \<not> overlong t"
    unfolding tl by (simp add: eval_line)
  note claim = precompile_rule_construction [of T opts0]
  from claim nov obtain rs st where
    r: "precompileFilterList (JSString T) opts0 = Some (Inr (rs, st))" by blast
  from claim r have len: "length rs = processedRules st"
    "length rs = length (filter accepted (trimmedLines T))" by blast+
  from claim r have each: "\<forall>k < length rs.
              rule_id (rs ! k) = or_1 (startId opts0) + k
              \<and> priority (rs ! k) = or_1 (opt_priority opts0)
              \<and> action (rs ! k) = Block
              \<and> urlFilter (condition (rs ! k)) = Some (filter accepted (trimmedLines T) ! k)
              \<and> resourceTypes (condition (rs ! k)) = allResourceTypes" by blast
  from len acc have l2: "length rs = 2" "processedRules st = 2" by simp_all
  from each l2 have "rule_id (rs ! 0) = 7" "rule_id (rs ! 1) = 8" "priority (rs ! 1) = 3"
    "action (rs ! 1) = Block" "urlFilter (condition (rs ! 1)) = Some (str ''||b.org^'')"
    by (simp_all add: opts0_def acc)
  with r l2 show ?thesis unfolding T_def opts0_def by blast
qed

theorem start_id_zero_counterexample:
  "precompileFilterList (JSString (str ''||ads.example.com^''))
     \<lparr>startId = Some 0, opt_priority = Some 0\<rparr>
   = Some (Inr ([newRule 1 1 (str ''||ads.example.com^'')],
                \<lparr>processedRules = 1, skippedLines = 0, errors = 0, totalLines = 1\<rparr>))
   \<and> rule_id (newRule 1 1 (str ''||ads.example.com^'')) \<noteq> 0 + 1 - 1
   \<and> priority (newRule 1 1 (str ''||ads.example.com^'')) \<noteq> 0"
proof -
  have tl: "trimmedLines (str ''||ads.example.com^'') = [str ''||ads.example.com^'']"
    by (simp add: eval_line)
  have acc: "accepted (str ''||ads.example.com^'')" by (simp add: eval_line)
  have nov: "\<forall>t \<in> set (trimmedLines (str ''||ads.example.com^'')). \<not> overlong t"
    unfolding tl by (simp add: eval_line)
  show ?thesis
    by (simp add: precompile_returns [OF nov] tl acc) (simp add: newRule_def)
qed

section \<open>The override manager\<close>

lemmas eval_world = toggleRulesetFuerDomain_def toggleRulesetFuerDomain_try_def
  updateSessionRulesForDomain_def updateSessionRulesForDomain_try_def callSessionRules_def
  exemptionSet_def freshWorld_def spec_adapter_def spec_updateSessionRules_def
  spec_updateEnabledRulesets_def failing_adapter_def allowRule_def Let_def
  toggleRuleset_def toggleRuleset_try_def onStartup_def initialisieren_def
  handleToggleBlocking_def handleToggleBlocking_try_def

lemma catch_and_log_resolves: "catch_and_log out = Resolved (world_of out)"
  by (cases out) simp_all

lemma toggle_world:
  "toggleRulesetFuerDomain A now d b w = Resolved (world_of (toggleRulesetFuerDomain_try A now d b w))"
  by (simp add: toggleRulesetFuerDomain_def catch_and_log_resolves)

lemma update_world:
  "updateSessionRulesForDomain A d b w = Resolved (world_of (updateSessionRulesForDomain_try A d b w))"
  by (simp add: updateSessionRulesForDomain_def catch_and_log_resolves)

lemma callSessionRules_keeps:
  "disabledDomains (world_of (callSessionRules A u w)) = disabledDomains w"
  "lastUpdate (world_of (callSessionRules A u w)) = lastUpdate w"
  "isEnabled (world_of (callSessionRules A u w)) = isEnabled w"
  "enabledRulesets (world_of (callSessionRules A u w)) = enabledRulesets w"
  "version (world_of (callSessionRules A u w)) = version w"
  "statsCached (world_of (callSessionRules A u w)) = statsCached w"
  by (simp_all add: callSessionRules_def split: sum.splits)

lemma update_try_keeps:
  "disabledDomains (world_of (updateSessionRulesForDomain_try A d b w)) = disabledDomains w"
  "lastUpdate (world_of (updateSessionRulesForDomain_try A d b w)) = lastUpdate w"
  "isEnabled (world_of (updateSessionRulesForDomain_try A d b w)) = isEnabled w"
  "enabledRulesets (world_of (updateSessionRulesForDomain_try A d b w)) = enabledRulesets w"
  "version (world_of (updateSessionRulesForDomain_try A d b w)) = version w"
  "statsCached (world_of (updateSessionRulesForDomain_try A d b w)) = statsCached w"
  by (auto simp: updateSessionRulesForDomain_try_def Let_def callSessionRules_def
      split: sum.splits outcome.splits)

lemma exemptionSet_update_try:
  "exemptionSet (world_of (updateSessionRulesForDomain_try A d b w)) = exemptionSet w"
  by (simp add: exemptionSet_def update_try_keeps)

lemma exemptionSet_written:
  "exemptionSet (w\<lparr>disabledDomains := Some ds, lastUpdate := t\<rparr>) = ds"
  by (simp add: exemptionSet_def)

lemma toggle_try_world:
  "world_of (toggleRulesetFuerDomain_try A now d b w) =
     world_of (updateSessionRulesForDomain_try A d b
       (w\<lparr>disabledDomains :=
            Some (if b then filter (\<lambda>x. x \<noteq> d) (exemptionSet w)
                  else if d \<in> set (exemptionSet w) then exemptionSet w
                  else exemptionSet w @ [d]),
          lastUpdate := Some now\<rparr>))"
  by (simp add: toggleRulesetFuerDomain_try_def Let_def update_world)

lemma exemptionSet_toggle:
  "exemptionSet (world_of (toggleRulesetFuerDomain A now d b w)) =
     (if b then filter (\<lambda>x. x \<noteq> d) (exemptionSet w)
      else if d \<in> set (exemptionSet w) then exemptionSet w
      else exemptionSet w @ [d])"
  by (simp only: toggle_world world_of.simps toggle_try_world exemptionSet_update_try
      exemptionSet_written)

lemma spec_add_one:
  "updateSessionRules (spec_adapter pol) \<lparr>removeRuleIds = [], addRules = [r]\<rparr> T =
     (if rule_id r \<in> rule_id ` set T
      then (case pol of Rejects \<Rightarrow> Inl ''rule id is not unique'' | Ignores \<Rightarrow> Inr T)
      else Inr (T @ [r]))"
  by (simp add: spec_adapter_def spec_updateSessionRules_def split: duplicates.splits)

lemma spec_remove:
  "updateSessionRules (spec_adapter pol) \<lparr>removeRuleIds = ids, addRules = []\<rparr> T =
     Inr (filter (\<lambda>r. rule_id r \<notin> set ids) T)"
  by (simp add: spec_adapter_def spec_updateSessionRules_def)

lemma exempt_fresh:
  assumes "hashCode d \<notin> rule_id ` set (sessionRules w)"
    and "hashCode d + 1 \<notin> rule_id ` set (sessionRules w)"
  shows "updateSessionRulesForDomain_try (spec_adapter pol) d False w =
     Resolved (w\<lparr>sessionRules := sessionRules w
        @ [allowRule (hashCode d) (fromDomain d), allowRule (hashCode d + 1) (toDomain d)]\<rparr>)"
  using assms
  by (simp add: updateSessionRulesForDomain_try_def Let_def callSessionRules_def spec_add_one
      allowRule_def)

lemma exempt_again:
  assumes "hashCode d \<in> rule_id ` set (sessionRules w)"
    and "hashCode d + 1 \<in> rule_id ` set (sessionRules w)"
  shows "world_of (updateSessionRulesForDomain_try (spec_adapter pol) d False w) = w"
  using assms
  by (cases pol)
    (simp_all add: updateSessionRulesForDomain_try_def Let_def callSessionRules_def spec_add_one
      allowRule_def)

lemma block_removes:
  "updateSessionRulesForDomain_try (spec_adapter pol) d True w =
     Resolved (w\<lparr>sessionRules :=
        filter (\<lambda>r. rule_id r \<noteq> hashCode d \<and> rule_id r \<noteq> hashCode d + 1) (sessionRules w)\<rparr>)"
  by (simp add: updateSessionRulesForDomain_try_def Let_def callSessionRules_def spec_remove)

lemma idsFree_ids:
  "idsFree d w \<Longrightarrow> hashCode d \<notin> rule_id ` set (sessionRules w)
     \<and> hashCode d + 1 \<notin> rule_id ` set (sessionRules w)"
  by (auto simp: idsFree_def filter_empty_conv)

lemma filter_none: "(\<And>x. x \<in> set xs \<Longrightarrow> \<not> P x) \<Longrightarrow> filter P xs = []"
  by (induction xs) auto

lemma exempt_twice:
  "world_of (updateSessionRulesForDomain_try (spec_adapter pol) d False
      (world_of (updateSessionRulesForDomain_try (spec_adapter pol) d False w)))
   = world_of (updateSessionRulesForDomain_try (spec_adapter pol) d False w)"
  by (cases pol)
     (auto simp: updateSessionRulesForDomain_try_def Let_def callSessionRules_def spec_add_one
        allowRule_def image_iff)

lemma block_twice:
  "world_of (updateSessionRulesForDomain_try (spec_adapter pol) d True
      (world_of (updateSessionRulesForDomain_try (spec_adapter pol) d True w)))
   = world_of (updateSessionRulesForDomain_try (spec_adapter pol) d True w)"
  by (simp add: block_removes)

lemma update_try_lastUpdate:
  "world_of (updateSessionRulesForDomain_try A d b (w\<lparr>lastUpdate := t\<rparr>))
   = (world_of (updateSessionRulesForDomain_try A d b w))\<lparr>lastUpdate := t\<rparr>"
  by (auto simp: updateSessionRulesForDomain_try_def Let_def callSessionRules_def
      split: sum.splits outcome.splits)

lemma disabledDomains_toggle:
  "disabledDomains (world_of (toggleRulesetFuerDomain A now d b w)) =
     Some (if b then filter (\<lambda>x. x \<noteq> d) (exemptionSet w)
           else if d \<in> set (exemptionSet w) then exemptionSet w
           else exemptionSet w @ [d])"
  by (simp add: toggle_world toggle_try_world update_try_keeps)

text \<open>
  From any state and in either direction, a second identical toggle changes nothing but
  the time stamp.
\<close>

lemma toggle_again:
  "world_of (toggleRulesetFuerDomain (spec_adapter pol) t2 d b
      (world_of (toggleRulesetFuerDomain (spec_adapter pol) t1 d b w)))
   = (world_of (toggleRulesetFuerDomain (spec_adapter pol) t1 d b w))\<lparr>lastUpdate := Some t2\<rparr>"
proof -
  define w1 where "w1 = world_of (toggleRulesetFuerDomain (spec_adapter pol) t1 d b w)"
  define w0 where "w0 = w\<lparr>disabledDomains :=
            Some (if b then filter (\<lambda>x. x \<noteq> d) (exemptionSet w)
                  else if d \<in> set (exemptionSet w) then exemptionSet w
                  else exemptionSet w @ [d]),
          lastUpdate := Some t1\<rparr>"
  have w1: "w1 = world_of (updateSessionRulesForDomain_try (spec_adapter pol) d b w0)"
    by (simp add: w1_def w0_def toggle_world toggle_try_world)
  have same: "(if b then filter (\<lambda>x. x \<noteq> d) (exemptionSet w1)
           else if d \<in> set (exemptionSet w1) then exemptionSet w1
           else exemptionSet w1 @ [d]) = exemptionSet w1"
    unfolding w1_def by (simp add: exemptionSet_toggle)
  have dd: "disabledDomains w1 = Some (exemptionSet w1)"
    unfolding w1_def by (simp add: disabledDomains_toggle exemptionSet_toggle)
  have "w1\<lparr>disabledDomains := Some (exemptionSet w1), lastUpdate := Some t2\<rparr>
        = w1\<lparr>lastUpdate := Some t2\<rparr>"
    using dd by simp
  then have "world_of (toggleRulesetFuerDomain (spec_adapter pol) t2 d b w1)
        = world_of (updateSessionRulesForDomain_try (spec_adapter pol) d b (w1\<lparr>lastUpdate := Some t2\<rparr>))"
    by (simp only: toggle_world world_of.simps toggle_try_world same)
  also have "\<dots> = (world_of (updateSessionRulesForDomain_try (spec_adapter pol) d b w1))\<lparr>lastUpdate := Some t2\<rparr>"
    by (rule update_try_lastUpdate)
  also have "world_of (updateSessionRulesForDomain_try (spec_adapter pol) d b w1) = w1"
    unfolding w1 by (cases b) (simp_all add: exempt_twice block_twice)
  finally show ?thesis unfolding w1_def .
qed

lemma toggle_from_blocked:
  assumes "isBlocked d w" and "idsFree d w"
  shows "\<exists>w1 w2 w3.
      toggleRulesetFuerDomain (spec_adapter pol) t1 d False w = Resolved w1
    \<and> toggleRulesetFuerDomain (spec_adapter pol) t2 d False w1 = Resolved w2
    \<and> count_list (exemptionSet w2) d = 1
    \<and> filter (namesDomain d) (sessionRules w2)
        = [\<lparr>rule_id = hashCode d, priority = 100000, action = Allow,
            condition = \<lparr>urlFilter = None, initiatorDomains = Some [d], requestDomains = None,
              resourceTypes =
                [''main_frame'', ''sub_frame'', ''stylesheet'', ''script'', ''image'', ''font'',
                 ''object'', ''xmlhttprequest'', ''ping'', ''csp_report'', ''media'',
                 ''websocket'', ''other'']\<rparr>\<rparr>,
           \<lparr>rule_id = hashCode d + 1, priority = 100000, action = Allow,
            condition = \<lparr>urlFilter = None, initiatorDomains = None, requestDomains = Some [d],
              resourceTypes =
                [''main_frame'', ''sub_frame'', ''stylesheet'', ''script'', ''image'', ''font'',
                 ''object'', ''xmlhttprequest'', ''ping'', ''csp_report'', ''media'',
                 ''websocket'', ''other'']\<rparr>\<rparr>]
    \<and> filter (\<lambda>r. rule_id r = hashCode d \<or> rule_id r = hashCode d + 1) (sessionRules w2)
        = filter (namesDomain d) (sessionRules w2)
    \<and> w2 = w1\<lparr>lastUpdate := Some t2\<rparr>
    \<and> toggleRulesetFuerDomain (spec_adapter pol) t3 d True w = Resolved w3
    \<and> w3 = w\<lparr>disabledDomains := Some (exemptionSet w), lastUpdate := Some t3\<rparr>"
proof -
  from idsFree_ids [OF assms(2)] have
    h1: "hashCode d \<notin> rule_id ` set (sessionRules w)" and
    h2: "hashCode d + 1 \<notin> rule_id ` set (sessionRules w)"
    by simp_all
  from assms(1) have nd: "d \<notin> set (exemptionSet w)"
    and nn: "filter (namesDomain d) (sessionRules w) = []"
    by (simp_all add: isBlocked_def)
  from assms(2) have none:
    "filter (\<lambda>r. rule_id r = hashCode d \<or> rule_id r = hashCode d + 1) (sessionRules w) = []"
    by (simp add: idsFree_def)
  then have h3: "\<And>r. r \<in> set (sessionRules w) \<Longrightarrow>
      rule_id r \<noteq> hashCode d \<and> rule_id r \<noteq> hashCode d + 1"
    by (auto simp: filter_empty_conv)
  define T where "T = sessionRules w
        @ [allowRule (hashCode d) (fromDomain d), allowRule (hashCode d + 1) (toDomain d)]"
  define w1 where "w1 = w\<lparr>disabledDomains := Some (exemptionSet w @ [d]), lastUpdate := Some t1,
                         sessionRules := T\<rparr>"
  have first: "toggleRulesetFuerDomain (spec_adapter pol) t1 d False w = Resolved w1"
    using nd h1 h2
    by (simp add: toggle_world toggle_try_world exempt_fresh w1_def T_def)
  have e1: "exemptionSet w1 = exemptionSet w @ [d]" by (simp add: w1_def exemptionSet_def)
  have in1: "hashCode d \<in> rule_id ` set (sessionRules w1)"
    "hashCode d + 1 \<in> rule_id ` set (sessionRules w1)"
    by (simp_all add: w1_def T_def allowRule_def)
  have second: "toggleRulesetFuerDomain (spec_adapter pol) t2 d False w1
                 = Resolved (w1\<lparr>lastUpdate := Some t2\<rparr>)"
    using in1 by (simp add: toggle_world toggle_try_world exempt_again e1) (simp add: w1_def)
  have cnt: "count_list (exemptionSet (w1\<lparr>lastUpdate := Some t2\<rparr>)) d = 1"
    using nd by (simp add: exemptionSet_def w1_def count_list_0_iff)
  have named: "filter (namesDomain d) (sessionRules (w1\<lparr>lastUpdate := Some t2\<rparr>))
        = [\<lparr>rule_id = hashCode d, priority = 100000, action = Allow,
            condition = \<lparr>urlFilter = None, initiatorDomains = Some [d], requestDomains = None,
              resourceTypes =
                [''main_frame'', ''sub_frame'', ''stylesheet'', ''script'', ''image'', ''font'',
                 ''object'', ''xmlhttprequest'', ''ping'', ''csp_report'', ''media'',
                 ''websocket'', ''other'']\<rparr>\<rparr>,
           \<lparr>rule_id = hashCode d + 1, priority = 100000, action = Allow,
            condition = \<lparr>urlFilter = None, initiatorDomains = None, requestDomains = Some [d],
              resourceTypes =
                [''main_frame'', ''sub_frame'', ''stylesheet'', ''script'', ''image'', ''font'',
                 ''object'', ''xmlhttprequest'', ''ping'', ''csp_report'', ''media'',
                 ''websocket'', ''other'']\<rparr>\<rparr>]"
    using nn
    by (simp add: w1_def T_def allowRule_def fromDomain_def toDomain_def namesDomain_def
        allResourceTypes_def)
  have pair: "filter (\<lambda>r. rule_id r = hashCode d \<or> rule_id r = hashCode d + 1)
                 (sessionRules (w1\<lparr>lastUpdate := Some t2\<rparr>))
        = filter (namesDomain d) (sessionRules (w1\<lparr>lastUpdate := Some t2\<rparr>))"
    using none nn
    by (simp add: w1_def T_def allowRule_def fromDomain_def toDomain_def namesDomain_def)
  have keep: "filter (\<lambda>r. rule_id r \<noteq> hashCode d \<and> rule_id r \<noteq> hashCode d + 1) (sessionRules w)
                = sessionRules w"
    using h3 by (auto simp: filter_id_conv)
  have same: "filter (\<lambda>x. x \<noteq> d) (exemptionSet w) = exemptionSet w"
    using nd by (auto simp: filter_id_conv)
  have third: "toggleRulesetFuerDomain (spec_adapter pol) t3 d True w
                 = Resolved (w\<lparr>disabledDomains := Some (exemptionSet w), lastUpdate := Some t3\<rparr>)"
    using keep by (simp add: toggle_world toggle_try_world block_removes same)
  from first second cnt named pair third show ?thesis by blast
qed

section \<open>Toggling a domain twice\<close>

text \<open>
  C2, as amended. With an engine that keeps the contract of the specification, under
  either reading of what it does with a duplicate id, every call of
  \<open>toggleRulesetFuerDomain\<close> resolves, and a second identical call, from whatever state
  and in either direction, resolves and changes nothing but the time stamp. Let moreover the domain
  \<open>d\<close> be Blocked, and let its two ids be free, carried by no session rule of any domain.
  Then after two calls \<open>toggleRulesetFuerDomain(d, false)\<close> in a row \<open>d\<close> is in the
  exemption list exactly once, and the session rules that name \<open>d\<close> are exactly two: the
  allow rule of priority 100000 with the id \<open>hashCode(d)\<close> for requests initiated by \<open>d\<close>
  and the one with the id \<open>hashCode(d) + 1\<close> for requests to \<open>d\<close>; no other rule carries
  one of the two ids. A call \<open>toggleRulesetFuerDomain(d, true)\<close> on such a domain resolves
  and changes nothing but the stored time stamp and the stored list, which is written
  back as it was read.

  The claim as written says of the enabling call that it changes nothing, and it speaks
  of every Blocked domain. What happens when another domain's rule carries one of the
  ids of \<open>d\<close> is the matter of C4, and the statement here is silent on it.
\<close>

theorem toggle_idempotent:
  "(\<exists>w1. toggleRulesetFuerDomain (spec_adapter pol) t1 d b w = Resolved w1
      \<and> toggleRulesetFuerDomain (spec_adapter pol) t2 d b w1
          = Resolved (w1\<lparr>lastUpdate := Some t2\<rparr>))
   \<and> (isBlocked d w \<and> idsFree d w \<longrightarrow>
        (\<exists>w1 w2 w3.
            toggleRulesetFuerDomain (spec_adapter pol) t1 d False w = Resolved w1
          \<and> toggleRulesetFuerDomain (spec_adapter pol) t2 d False w1 = Resolved w2
          \<and> count_list (exemptionSet w2) d = 1
          \<and> filter (namesDomain d) (sessionRules w2)
              = [\<lparr>rule_id = hashCode d, priority = 100000, action = Allow,
                  condition = \<lparr>urlFilter = None, initiatorDomains = Some [d],
                    requestDomains = None,
                    resourceTypes =
                      [''main_frame'', ''sub_frame'', ''stylesheet'', ''script'', ''image'',
                       ''font'', ''object'', ''xmlhttprequest'', ''ping'', ''csp_report'',
                       ''media'', ''websocket'', ''other'']\<rparr>\<rparr>,
                 \<lparr>rule_id = hashCode d + 1, priority = 100000, action = Allow,
                  condition = \<lparr>urlFilter = None, initiatorDomains = None,
                    requestDomains = Some [d],
                    resourceTypes =
                      [''main_frame'', ''sub_frame'', ''stylesheet'', ''script'', ''image'',
                       ''font'', ''object'', ''xmlhttprequest'', ''ping'', ''csp_report'',
                       ''media'', ''websocket'', ''other'']\<rparr>\<rparr>]
          \<and> filter (\<lambda>r. rule_id r = hashCode d \<or> rule_id r = hashCode d + 1) (sessionRules w2)
              = filter (namesDomain d) (sessionRules w2)
          \<and> w2 = w1\<lparr>lastUpdate := Some t2\<rparr>
          \<and> toggleRulesetFuerDomain (spec_adapter pol) t3 d True w = Resolved w3
          \<and> w3 = w\<lparr>disabledDomains := Some (exemptionSet w), lastUpdate := Some t3\<rparr>))"
proof (intro conjI impI)
  have "toggleRulesetFuerDomain (spec_adapter pol) t2 d b
          (world_of (toggleRulesetFuerDomain (spec_adapter pol) t1 d b w))
        = Resolved ((world_of (toggleRulesetFuerDomain (spec_adapter pol) t1 d b w))
            \<lparr>lastUpdate := Some t2\<rparr>)"
    using toggle_again [of pol t2 d b t1 w]
    by (simp only: toggle_world [of _ t2] world_of.simps)
  moreover have "toggleRulesetFuerDomain (spec_adapter pol) t1 d b w
        = Resolved (world_of (toggleRulesetFuerDomain (spec_adapter pol) t1 d b w))"
    by (simp only: toggle_world world_of.simps)
  ultimately show "\<exists>w1. toggleRulesetFuerDomain (spec_adapter pol) t1 d b w = Resolved w1
      \<and> toggleRulesetFuerDomain (spec_adapter pol) t2 d b w1
          = Resolved (w1\<lparr>lastUpdate := Some t2\<rparr>)"
    by blast
next
  assume "isBlocked d w \<and> idsFree d w"
  then have "isBlocked d w" "idsFree d w" by simp_all
  then show "\<exists>w1 w2 w3.
            toggleRulesetFuerDomain (spec_adapter pol) t1 d False w = Resolved w1
          \<and> toggleRulesetFuerDomain (spec_adapter pol) t2 d False w1 = Resolved w2
          \<and> count_list (exemptionSet w2) d = 1
          \<and> filter (namesDomain d) (sessionRules w2)
              = [\<lparr>rule_id = hashCode d, priority = 100000, action = Allow,
                  condition = \<lparr>urlFilter = None, initiatorDomains = Some [d],
                    requestDomains = None,
                    resourceTypes =
                      [''main_frame'', ''sub_frame'', ''stylesheet'', ''script'', ''image'',
                       ''font'', ''object'', ''xmlhttprequest'', ''ping'', ''csp_report'',
                       ''media'', ''websocket'', ''other'']\<rparr>\<rparr>,
                 \<lparr>rule_id = hashCode d + 1, priority = 100000, action = Allow,
                  condition = \<lparr>urlFilter = None, initiatorDomains = None,
                    requestDomains = Some [d],
                    resourceTypes =
                      [''main_frame'', ''sub_frame'', ''stylesheet'', ''script'', ''image'',
                       ''font'', ''object'', ''xmlhttprequest'', ''ping'', ''csp_report'',
                       ''media'', ''websocket'', ''other'']\<rparr>\<rparr>]
          \<and> filter (\<lambda>r. rule_id r = hashCode d \<or> rule_id r = hashCode d + 1) (sessionRules w2)
              = filter (namesDomain d) (sessionRules w2)
          \<and> w2 = w1\<lparr>lastUpdate := Some t2\<rparr>
          \<and> toggleRulesetFuerDomain (spec_adapter pol) t3 d True w = Resolved w3
          \<and> w3 = w\<lparr>disabledDomains := Some (exemptionSet w), lastUpdate := Some t3\<rparr>"
    by (rule toggle_from_blocked)
qed

theorem toggle_idempotent_witness:
  "\<exists>w1 w2 w3.
      toggleRulesetFuerDomain (spec_adapter Rejects) 1 (str ''x.com'') False freshWorld = Resolved w1
    \<and> toggleRulesetFuerDomain (spec_adapter Rejects) 2 (str ''x.com'') False w1 = Resolved w2
    \<and> count_list (exemptionSet w2) (str ''x.com'') = 1
    \<and> map rule_id (filter (namesDomain (str ''x.com'')) (sessionRules w2)) = [112291595, 112291596]
    \<and> map action (filter (namesDomain (str ''x.com'')) (sessionRules w2)) = [Allow, Allow]
    \<and> w2 = w1\<lparr>lastUpdate := Some 2\<rparr>
    \<and> toggleRulesetFuerDomain (spec_adapter Rejects) 3 (str ''x.com'') True freshWorld = Resolved w3
    \<and> w3 = freshWorld\<lparr>disabledDomains := Some [], lastUpdate := Some 3\<rparr>"
proof -
  have b: "isBlocked (str ''x.com'') freshWorld \<and> idsFree (str ''x.com'') freshWorld"
    by (simp add: isBlocked_def idsFree_def freshWorld_def exemptionSet_def)
  have h: "hashCode (str ''x.com'') = 112291595"
    by (simp add: hashCode_def toInt32_def str_def ch_def)
  have e: "exemptionSet freshWorld = []" by (simp add: freshWorld_def exemptionSet_def)
  from toggle_idempotent [of Rejects 1 "str ''x.com''" False freshWorld 2 3] b
  obtain w1 w2 w3 where
    "toggleRulesetFuerDomain (spec_adapter Rejects) 1 (str ''x.com'') False freshWorld = Resolved w1"
    "toggleRulesetFuerDomain (spec_adapter Rejects) 2 (str ''x.com'') False w1 = Resolved w2"
    "count_list (exemptionSet w2) (str ''x.com'') = 1"
    "map rule_id (filter (namesDomain (str ''x.com'')) (sessionRules w2))
       = [hashCode (str ''x.com''), hashCode (str ''x.com'') + 1]"
    "map action (filter (namesDomain (str ''x.com'')) (sessionRules w2)) = [Allow, Allow]"
    "w2 = w1\<lparr>lastUpdate := Some 2\<rparr>"
    "toggleRulesetFuerDomain (spec_adapter Rejects) 3 (str ''x.com'') True freshWorld = Resolved w3"
    "w3 = freshWorld\<lparr>disabledDomains := Some (exemptionSet freshWorld), lastUpdate := Some 3\<rparr>"
    by auto
  then show ?thesis unfolding h e by (intro exI [of _ w1] exI [of _ w2] exI [of _ w3]) simp
qed

text \<open>
  The counterexamples to C2 as written. First, \<open>x.com\<close> is Blocked in the fresh state,
  and the enabling call changes the stored time stamp and stores the empty list under a
  key that was not set. Second, \<open>a.ch\<close> has been exempted. Then \<open>a.ci\<close> is Blocked, it is
  not in the list and no rule names it, but its first id is the second id of \<open>a.ch\<close>: with
  an engine that rejects a duplicate id, two calls that exempt \<open>a.ci\<close> leave no rule that
  names \<open>a.ci\<close>; and the enabling call for the Blocked \<open>a.ci\<close> removes a rule of \<open>a.ch\<close>.
\<close>

theorem toggle_idempotent_counterexample:
  "isBlocked (str ''x.com'') freshWorld
   \<and> lastUpdate freshWorld = None
   \<and> lastUpdate (world_of (toggleRulesetFuerDomain (spec_adapter Rejects) 3 (str ''x.com'') True
        freshWorld)) = Some 3
   \<and> disabledDomains freshWorld = None
   \<and> disabledDomains (world_of (toggleRulesetFuerDomain (spec_adapter Rejects) 3 (str ''x.com'') True
        freshWorld)) = Some []
   \<and> isBlocked (str ''a.ci'')
        (world_of (toggleRulesetFuerDomain (spec_adapter Rejects) 1 (str ''a.ch'') False freshWorld))
   \<and> filter (namesDomain (str ''a.ci''))
        (sessionRules
          (world_of (toggleRulesetFuerDomain (spec_adapter Rejects) 3 (str ''a.ci'') False
            (world_of (toggleRulesetFuerDomain (spec_adapter Rejects) 2 (str ''a.ci'') False
              (world_of (toggleRulesetFuerDomain (spec_adapter Rejects) 1 (str ''a.ch'') False
                 freshWorld))))))) = []
   \<and> map rule_id (sessionRules
        (world_of (toggleRulesetFuerDomain (spec_adapter Rejects) 1 (str ''a.ch'') False freshWorld)))
        = [2937106, 2937107]
   \<and> map rule_id (sessionRules
        (world_of (toggleRulesetFuerDomain (spec_adapter Rejects) 2 (str ''a.ci'') True
          (world_of (toggleRulesetFuerDomain (spec_adapter Rejects) 1 (str ''a.ch'') False
             freshWorld))))) = [2937106]"
  by (simp add: eval_world isBlocked_def namesDomain_def fromDomain_def toDomain_def
      hashCode_def toInt32_def str_def ch_def)

section \<open>Exempting a domain and blocking it again\<close>

text \<open>
  C3, as amended. If \<open>d\<close> is not in the exemption list, then exempting it and blocking
  it again, with an engine that keeps the contract of the specification, resolves both
  times and gives back the exemption list as it was before the first call; and whatever
  the list was, no session rule with the id \<open>hashCode(d)\<close> or \<open>hashCode(d) + 1\<close> is left
  in the table. The claim as written speaks of every domain: for a domain that already is
  in the list, the two calls remove it, so the list is not what it was.
\<close>

theorem round_trip_from_blocked:
  "\<exists>w1 w2.
      toggleRulesetFuerDomain (spec_adapter pol) t1 d False w = Resolved w1
    \<and> toggleRulesetFuerDomain (spec_adapter pol) t2 d True w1 = Resolved w2
    \<and> (d \<notin> set (exemptionSet w) \<longrightarrow> exemptionSet w2 = exemptionSet w)
    \<and> list_all (\<lambda>r. rule_id r \<noteq> hashCode d \<and> rule_id r \<noteq> hashCode d + 1) (sessionRules w2)"
proof -
  define w1 where "w1 = world_of (toggleRulesetFuerDomain (spec_adapter pol) t1 d False w)"
  define w2 where "w2 = world_of (toggleRulesetFuerDomain (spec_adapter pol) t2 d True w1)"
  have r1: "toggleRulesetFuerDomain (spec_adapter pol) t1 d False w = Resolved w1"
    by (simp add: w1_def toggle_world)
  have r2: "toggleRulesetFuerDomain (spec_adapter pol) t2 d True w1 = Resolved w2"
    by (simp add: w2_def toggle_world)
  have e2: "exemptionSet w2 = exemptionSet w" if fresh: "d \<notin> set (exemptionSet w)"
  proof -
    have e1: "exemptionSet w1 = exemptionSet w @ [d]"
      using fresh unfolding w1_def by (simp add: exemptionSet_toggle)
    have "exemptionSet w2 = filter (\<lambda>x. x \<noteq> d) (exemptionSet w @ [d])"
      unfolding w2_def by (simp add: exemptionSet_toggle e1)
    also have "\<dots> = exemptionSet w" using fresh by (auto simp: filter_id_conv)
    finally show ?thesis .
  qed
  have "list_all (\<lambda>r. rule_id r \<noteq> hashCode d \<and> rule_id r \<noteq> hashCode d + 1) (sessionRules w2)"
    unfolding w2_def by (simp add: toggle_world toggle_try_world block_removes list_all_iff)
  with r1 r2 e2 show ?thesis by blast
qed

theorem round_trip_from_blocked_witness:
  "\<exists>w1 w2.
      toggleRulesetFuerDomain (spec_adapter Ignores) 1 (str ''x.com'') False freshWorld = Resolved w1
    \<and> toggleRulesetFuerDomain (spec_adapter Ignores) 2 (str ''x.com'') True w1 = Resolved w2
    \<and> exemptionSet w2 = exemptionSet freshWorld
    \<and> list_all (\<lambda>r. rule_id r \<noteq> hashCode (str ''x.com'') \<and> rule_id r \<noteq> hashCode (str ''x.com'') + 1)
         (sessionRules w2)"
proof -
  have b: "str ''x.com'' \<notin> set (exemptionSet freshWorld)"
    by (simp add: freshWorld_def exemptionSet_def)
  from round_trip_from_blocked [of Ignores 1 "str ''x.com''" freshWorld 2] b
  show ?thesis by blast
qed

text \<open>
  The counterexample to C3 as written: \<open>x.com\<close> has been exempted by an earlier call;
  the two calls of the round trip then leave a list without it.
\<close>

theorem round_trip_counterexample:
  "exemptionSet
     (world_of (toggleRulesetFuerDomain (spec_adapter Rejects) 1 (str ''x.com'') False freshWorld))
     = [str ''x.com'']
   \<and> exemptionSet
        (world_of (toggleRulesetFuerDomain (spec_adapter Rejects) 3 (str ''x.com'') True
          (world_of (toggleRulesetFuerDomain (spec_adapter Rejects) 2 (str ''x.com'') False
            (world_of (toggleRulesetFuerDomain (spec_adapter Rejects) 1 (str ''x.com'') False
               freshWorld)))))) = []"
  by (simp add: exemptionSet_toggle) (simp add: exemptionSet_def freshWorld_def)

section \<open>The ids of the override rules\<close>

text \<open>The value of \<open>hashCode\<close> fits the unsigned 32-bit range of a rule id.\<close>

lemma toInt32_range: "- (2 ^ 31) \<le> toInt32 x \<and> toInt32 x < 2 ^ 31"
proof -
  have "0 \<le> (x + 2 ^ 31) mod (2 ^ 32 :: int)" "(x + 2 ^ 31) mod (2 ^ 32 :: int) < 2 ^ 32"
    by simp_all
  then show ?thesis by (simp add: toInt32_def)
qed

lemma hashLoop_range:
  "- (2 ^ 31) \<le> h \<Longrightarrow> h < 2 ^ 31 \<Longrightarrow> - (2 ^ 31) \<le> hashLoop h s \<and> hashLoop h s < 2 ^ 31"
proof (induction s arbitrary: h)
  case Nil
  then show ?case by simp
next
  case (Cons c cs)
  show ?case
    using Cons.IH [of "toInt32 (toInt32 (h * 2 ^ 5) - h + uint c)"] toInt32_range
    by simp
qed

lemma hashCode_le: "hashCode s \<le> 2 ^ 31"
proof -
  have "- (2 ^ 31) \<le> hashLoop 0 s \<and> hashLoop 0 s < 2 ^ 31"
    by (rule hashLoop_range) simp_all
  then have "\<bar>hashLoop 0 s\<bar> \<le> 2 ^ 31" by (simp add: abs_le_iff)
  then show ?thesis by (simp add: hashCode_def nat_le_iff)
qed

text \<open>
  C4. The claim: the two ids of a domain, \<open>hashCode(d)\<close> and \<open>hashCode(d) + 1\<close>, are
  disjoint from the ids of the compiled rules and from the two ids of every other domain.
  The comment above \<open>hashCode\<close> says the function is there for unique rule ids. It does
  not give them: \<open>an.com\<close> and \<open>c0.com\<close> have the same hash, the second id of \<open>a.ch\<close>
  is the first id of \<open>a.ci\<close>, and the hash of \<open>frskaxq.com\<close> is 9, the id that the
  compiler gives to the ninth rule of a list compiled from \<open>startId = 1\<close>.
\<close>

theorem override_ids_collide:
  "str ''an.com'' \<noteq> str ''c0.com''
   \<and> hashCode (str ''an.com'') = 1414883264 \<and> hashCode (str ''c0.com'') = 1414883264
   \<and> str ''a.ch'' \<noteq> str ''a.ci''
   \<and> hashCode (str ''a.ch'') + 1 = 2937107 \<and> hashCode (str ''a.ci'') = 2937107
   \<and> hashCode (str ''frskaxq.com'') = 9"
  by (simp add: hashCode_def toInt32_def str_def ch_def)

text \<open>
  A collision is not harmless: blocking \<open>c0.com\<close>, which never was exempted, removes the
  allow rules of the exempted \<open>an.com\<close>, which stays in the exemption list.
\<close>

lemma collision_drops_rules:
  "sessionRules (world_of (toggleRulesetFuerDomain (spec_adapter pol) 2 (str ''c0.com'') True
     (world_of (toggleRulesetFuerDomain (spec_adapter pol) 1 (str ''an.com'') False freshWorld)))) = []
   \<and> exemptionSet (world_of (toggleRulesetFuerDomain (spec_adapter pol) 2 (str ''c0.com'') True
     (world_of (toggleRulesetFuerDomain (spec_adapter pol) 1 (str ''an.com'') False freshWorld))))
     = [str ''an.com'']"
  by (cases pol) (simp_all add: eval_world hashCode_def toInt32_def str_def ch_def)

section \<open>The order of the write and the engine call\<close>

text \<open>
  C5, as amended. \<open>toggleRulesetFuerDomain\<close> writes the exemption list and the time
  stamp to the storage first and calls the engine afterwards. So for every engine,
  whether its calls resolve or reject, the stored list after the toggle is the list
  before it with \<open>d\<close> removed (\<open>enabled = true\<close>) or with \<open>d\<close> appended unless it was
  there (\<open>enabled = false\<close>), and the stored time stamp is that of the call. The claim as
  written has the write wait for the engine call to succeed; with an engine that rejects,
  the stored list names \<open>x.com\<close> while the table holds no rule at all.
\<close>

theorem exemption_written_before_adapter:
  "exemptionSet (world_of (toggleRulesetFuerDomain A now d b w)) =
     (if b then filter (\<lambda>x. x \<noteq> d) (exemptionSet w)
      else if d \<in> set (exemptionSet w) then exemptionSet w
      else exemptionSet w @ [d])
   \<and> lastUpdate (world_of (toggleRulesetFuerDomain A now d b w)) = Some now"
  by (simp add: exemptionSet_toggle)
     (simp add: toggle_world toggle_try_world update_try_keeps)

theorem persist_after_adapter_counterexample:
  "exemptionSet (world_of (toggleRulesetFuerDomain failing_adapter 1 (str ''x.com'') False freshWorld))
     = [str ''x.com'']
   \<and> sessionRules (world_of (toggleRulesetFuerDomain failing_adapter 1 (str ''x.com'') False freshWorld))
     = []"
  by (simp add: eval_world)

section \<open>What the caller of a toggle is told\<close>

lemma handler_always_succeeds:
  assumes "req_isEnabled request = JSBoolean b" "req_domain request = Some d" "d \<noteq> []"
    and "req_tabId request = None"
  shows "fst (handleToggleBlocking A now request w) = SuccessResponse b"
  using assms
  by (simp add: handleToggleBlocking_def handleToggleBlocking_try_def toggle_world)

text \<open>
  C6. The claim: when the engine's session-rule call fails, the caller of the toggle gets
  an error result. \<open>handleToggleBlocking\<close> has the branch for it, which turns a
  rejection into \<open>{ error: message }\<close>, but no rejection of the engine reaches that
  branch: \<open>updateSessionRulesForDomain\<close> catches it and only logs it. For a request with
  a domain and without a tab the answer is always the success object
  (\<open>handler_always_succeeds\<close>). With an engine that rejects every session-rule call the
  request to exempt \<open>x.com\<close> is answered \<open>{ success: true, isEnabled: false }\<close>, and
  the storage names \<open>x.com\<close> although no rule was installed.
\<close>

theorem adapter_error_reported_as_success:
  "handleToggleBlocking failing_adapter 1
     \<lparr>req_isEnabled = JSBoolean False, req_domain = Some (str ''x.com''), req_tabId = None\<rparr>
     freshWorld
   = (SuccessResponse False,
      freshWorld\<lparr>disabledDomains := Some [str ''x.com''], lastUpdate := Some 1\<rparr>)"
  by (simp add: eval_world str_def)

section \<open>The start of the worker\<close>

lemma toggleRuleset_keeps:
  "sessionRules (world_of (toggleRuleset A now b w)) = sessionRules w"
  "disabledDomains (world_of (toggleRuleset A now b w)) = disabledDomains w"
  by (simp_all add: toggleRuleset_def toggleRuleset_try_def catch_and_log_resolves split: sum.splits)

text \<open>
  C7, as amended. The start-up paths, the listener of \<open>onStartup\<close> and
  \<open>initialisieren\<close>, read and write the global switch only: for every engine they leave
  the table of session rules and the stored exemption list exactly as they found them.
  The claim as written has the start-up install the allow rules of every stored domain;
  after a start with \<open>x.com\<close> in the list and an empty table, the table is still empty.
\<close>

theorem cold_start_leaves_session_rules:
  "sessionRules (world_of (onStartup A now w)) = sessionRules w
   \<and> disabledDomains (world_of (onStartup A now w)) = disabledDomains w
   \<and> sessionRules (world_of (initialisieren A now v w)) = sessionRules w
   \<and> disabledDomains (world_of (initialisieren A now v w)) = disabledDomains w"
  by (simp add: onStartup_def initialisieren_def toggleRuleset_keeps Let_def)

text \<open>
  The counterexample to C7 as written: \<open>x.com\<close> is exempted, the browser restarts, the
  listener of \<open>onStartup\<close> runs. The list still names \<open>x.com\<close>; the table is empty.
\<close>

theorem cold_start_counterexample:
  "exemptionSet (world_of (onStartup (spec_adapter Rejects) 2 (browserRestart
       (world_of (toggleRulesetFuerDomain (spec_adapter Rejects) 1 (str ''x.com'') False freshWorld)))))
     = [str ''x.com'']
   \<and> sessionRules (world_of (onStartup (spec_adapter Rejects) 2 (browserRestart
       (world_of (toggleRulesetFuerDomain (spec_adapter Rejects) 1 (str ''x.com'') False freshWorld)))))
     = []"
  by (simp add: eval_world browserRestart_def)

section \<open>Two toggles of one domain at once\<close>

text \<open>Run alone, or one after the other, the steps are the calls of the function.\<close>

lemma run_A_from:
  assumes "localsA cf = \<lparr>seenDomains = None, thrown = False\<rparr>"
  shows "shared (runSchedule A callA callB (program CallerA callA) cf)
     = world_of (toggleRulesetFuerDomain A (call_now callA) (call_domain callA) (call_enabled callA)
         (shared cf))"
  using assms
  by (cases "call_enabled callA")
    (auto simp: runSchedule_def program_def stepsOf_def engineCall_def
      toggleRulesetFuerDomain_def toggleRulesetFuerDomain_try_def
      updateSessionRulesForDomain_def updateSessionRulesForDomain_try_def
      callSessionRules_def mutated_def firstUpdate_def secondUpdate_def Let_def
      split: sum.splits)

lemma run_B_from:
  assumes "localsB cf = \<lparr>seenDomains = None, thrown = False\<rparr>"
  shows "shared (runSchedule A callA callB (program CallerB callB) cf)
     = world_of (toggleRulesetFuerDomain A (call_now callB) (call_domain callB) (call_enabled callB)
         (shared cf))"
  using assms
  by (cases "call_enabled callB")
    (auto simp: runSchedule_def program_def stepsOf_def engineCall_def
      toggleRulesetFuerDomain_def toggleRulesetFuerDomain_try_def
      updateSessionRulesForDomain_def updateSessionRulesForDomain_try_def
      callSessionRules_def mutated_def firstUpdate_def secondUpdate_def Let_def
      split: sum.splits)

lemma run_alone:
  "shared (runSchedule A callA callB (program CallerA callA) (start w))
     = world_of (toggleRulesetFuerDomain A (call_now callA) (call_domain callA) (call_enabled callA) w)"
  by (cases "call_enabled callA")
    (auto simp: runSchedule_def program_def stepsOf_def start_def engineCall_def
      toggleRulesetFuerDomain_def toggleRulesetFuerDomain_try_def
      updateSessionRulesForDomain_def updateSessionRulesForDomain_try_def
      callSessionRules_def mutated_def firstUpdate_def secondUpdate_def Let_def
      split: sum.splits)

lemma run_alone_B:
  "shared (runSchedule A callA callB (program CallerB callB) (start w))
     = world_of (toggleRulesetFuerDomain A (call_now callB) (call_domain callB) (call_enabled callB) w)"
  by (cases "call_enabled callB")
    (auto simp: runSchedule_def program_def stepsOf_def start_def engineCall_def
      toggleRulesetFuerDomain_def toggleRulesetFuerDomain_try_def
      updateSessionRulesForDomain_def updateSessionRulesForDomain_try_def
      callSessionRules_def mutated_def firstUpdate_def secondUpdate_def Let_def
      split: sum.splits)

lemma run_A_keeps_B:
  "localsB (runSchedule A callA callB (map (Pair CallerA) sts) cf) = localsB cf"
  unfolding runSchedule_def
  by (induction sts arbitrary: cf) (simp_all add: split_beta)

lemma run_B_keeps_A:
  "localsA (runSchedule A callA callB (map (Pair CallerB) sts) cf) = localsA cf"
  unfolding runSchedule_def
  by (induction sts arbitrary: cf) (simp_all add: split_beta)

lemma run_append:
  "runSchedule A callA callB (s @ s') cf = runSchedule A callA callB s' (runSchedule A callA callB s cf)"
  by (simp add: runSchedule_def)

lemma run_serial:
  "shared (runSchedule A callA callB (program CallerA callA @ program CallerB callB) (start w))
     = world_of (toggleRulesetFuerDomain A (call_now callB) (call_domain callB) (call_enabled callB)
         (world_of (toggleRulesetFuerDomain A (call_now callA) (call_domain callA)
            (call_enabled callA) w)))"
  "shared (runSchedule A callA callB (program CallerB callB @ program CallerA callA) (start w))
     = world_of (toggleRulesetFuerDomain A (call_now callA) (call_domain callA) (call_enabled callA)
         (world_of (toggleRulesetFuerDomain A (call_now callB) (call_domain callB)
            (call_enabled callB) w)))"
proof -
  have a: "localsA (start w) = \<lparr>seenDomains = None, thrown = False\<rparr>"
    and b: "localsB (start w) = \<lparr>seenDomains = None, thrown = False\<rparr>"
    by (simp_all add: start_def)
  have "localsB (runSchedule A callA callB (program CallerA callA) (start w))
          = \<lparr>seenDomains = None, thrown = False\<rparr>"
    unfolding program_def by (simp add: run_A_keeps_B b)
  then show "shared (runSchedule A callA callB (program CallerA callA @ program CallerB callB) (start w))
     = world_of (toggleRulesetFuerDomain A (call_now callB) (call_domain callB) (call_enabled callB)
         (world_of (toggleRulesetFuerDomain A (call_now callA) (call_domain callA)
            (call_enabled callA) w)))"
    by (simp add: run_append run_B_from run_A_from a start_def)
  have "localsA (runSchedule A callA callB (program CallerB callB) (start w))
          = \<lparr>seenDomains = None, thrown = False\<rparr>"
    unfolding program_def by (simp add: run_B_keeps_A a)
  then show "shared (runSchedule A callA callB (program CallerB callB @ program CallerA callA) (start w))
     = world_of (toggleRulesetFuerDomain A (call_now callA) (call_domain callA) (call_enabled callA)
         (world_of (toggleRulesetFuerDomain A (call_now callB) (call_domain callB)
            (call_enabled callB) w)))"
    by (simp add: run_append run_B_from run_A_from b start_def)
qed

text \<open>
  The stored list and time stamp after a schedule depend on the order of the four storage
  steps only, and the two programs leave six orders.
\<close>

lemma engineCall_keeps:
  "disabledDomains (snd (engineCall A u (l, w))) = disabledDomains w"
  "lastUpdate (snd (engineCall A u (l, w))) = lastUpdate w"
  "seenDomains (fst (engineCall A u (l, w))) = seenDomains l"
  by (simp_all add: engineCall_def callSessionRules_def split: sum.splits)

lemma viewOf_step: "viewOf (schedStep A callA callB cf x) = viewStep callA callB (viewOf cf) x"
proof (cases x)
  case (Pair who st)
  show ?thesis
  proof (cases who)
    case CallerA
    with Pair show ?thesis
      by (cases st)
        (auto simp: viewOf_def listOf_def exemptionSet_def engineCall_keeps split_beta
          split: option.splits)
  next
    case CallerB
    with Pair show ?thesis
      by (cases st)
        (auto simp: viewOf_def listOf_def exemptionSet_def engineCall_keeps split_beta
          split: option.splits)
  qed
qed

lemma viewOf_run:
  "viewOf (runSchedule A callA callB s cf) = foldl (viewStep callA callB) (viewOf cf) s"
  unfolding runSchedule_def
  by (induction s arbitrary: cf) (simp_all add: viewOf_step)

lemma viewStep_engine: "\<not> isStorageStep x \<Longrightarrow> viewStep callA callB v x = v"
  by (cases x rule: isStorageStep.cases) simp_all

lemma view_filter:
  "foldl (viewStep callA callB) v s = foldl (viewStep callA callB) v (filter isStorageStep s)"
  by (induction s arbitrary: v) (simp_all add: viewStep_engine)

lemma storage_steps:
  "filter isStorageStep (program who c) = [(who, ReadStorage), (who, WriteStorage)]"
  by (simp add: program_def stepsOf_def)

lemma storage_interleavings:
  assumes "s \<in> shuffles (program CallerA callA) (program CallerB callB)"
  shows "filter isStorageStep s \<in>
     shuffles [(CallerA, ReadStorage), (CallerA, WriteStorage)]
              [(CallerB, ReadStorage), (CallerB, WriteStorage)]"
proof -
  from assms have "filter isStorageStep s \<in> filter isStorageStep `
      shuffles (program CallerA callA) (program CallerB callB)" by blast
  then show ?thesis by (simp only: filter_shuffles storage_steps)
qed

lemma mutated_member: "call_domain c \<in> set (mutated c ds) \<longleftrightarrow> \<not> call_enabled c"
  by (simp add: mutated_def)

lemma mutated_others: "set (mutated c ds) - {call_domain c} = set ds - {call_domain c}"
  by (auto simp: mutated_def)

lemma viewOf_start:
  "viewOf (start w) = \<lparr>storedList = disabledDomains w, storedTime = lastUpdate w,
                        seenA = None, seenB = None\<rparr>"
  by (simp add: viewOf_def start_def)

lemma final_view:
  assumes "s \<in> shuffles (program CallerA callA) (program CallerB callB)"
  shows "disabledDomains (shared (runSchedule A callA callB s (start w)))
           = Some (mutated callA (exemptionSet w))
         \<and> lastUpdate (shared (runSchedule A callA callB s (start w))) = Some (call_now callA)
       \<or> disabledDomains (shared (runSchedule A callA callB s (start w)))
           = Some (mutated callA (mutated callB (exemptionSet w)))
         \<and> lastUpdate (shared (runSchedule A callA callB s (start w))) = Some (call_now callA)
       \<or> disabledDomains (shared (runSchedule A callA callB s (start w)))
           = Some (mutated callB (exemptionSet w))
         \<and> lastUpdate (shared (runSchedule A callA callB s (start w))) = Some (call_now callB)
       \<or> disabledDomains (shared (runSchedule A callA callB s (start w)))
           = Some (mutated callB (mutated callA (exemptionSet w)))
         \<and> lastUpdate (shared (runSchedule A callA callB s (start w))) = Some (call_now callB)"
proof -
  define v where "v = viewOf (runSchedule A callA callB s (start w))"
  have v: "v = foldl (viewStep callA callB) (viewOf (start w)) (filter isStorageStep s)"
    unfolding v_def by (simp only: viewOf_run view_filter [symmetric])
  have fields: "disabledDomains (shared (runSchedule A callA callB s (start w))) = storedList v"
    "lastUpdate (shared (runSchedule A callA callB s (start w))) = storedTime v"
    by (simp_all add: v_def viewOf_def)
  from storage_interleavings [OF assms]
  have "filter isStorageStep s \<in>
     {[(CallerA, ReadStorage), (CallerA, WriteStorage), (CallerB, ReadStorage), (CallerB, WriteStorage)],
      [(CallerA, ReadStorage), (CallerB, ReadStorage), (CallerA, WriteStorage), (CallerB, WriteStorage)],
      [(CallerA, ReadStorage), (CallerB, ReadStorage), (CallerB, WriteStorage), (CallerA, WriteStorage)],
      [(CallerB, ReadStorage), (CallerA, ReadStorage), (CallerA, WriteStorage), (CallerB, WriteStorage)],
      [(CallerB, ReadStorage), (CallerA, ReadStorage), (CallerB, WriteStorage), (CallerA, WriteStorage)],
      [(CallerB, ReadStorage), (CallerB, WriteStorage), (CallerA, ReadStorage), (CallerA, WriteStorage)]}"
    by (auto simp: image_iff)
  then have "storedList v = Some (mutated callA (exemptionSet w))
         \<and> storedTime v = Some (call_now callA)
       \<or> storedList v = Some (mutated callA (mutated callB (exemptionSet w)))
         \<and> storedTime v = Some (call_now callA)
       \<or> storedList v = Some (mutated callB (exemptionSet w))
         \<and> storedTime v = Some (call_now callB)
       \<or> storedList v = Some (mutated callB (mutated callA (exemptionSet w)))
         \<and> storedTime v = Some (call_now callB)"
    unfolding v viewOf_start
    by (elim insertE emptyE) (simp_all add: listOf_def exemptionSet_def)
  then show ?thesis by (simp only: fields)
qed

lemma staleSchedule_shuffle:
  "staleSchedule \<in> shuffles (program CallerA callDisable) (program CallerB callEnable)"
  by (simp add: staleSchedule_def program_def stepsOf_def callDisable_def callEnable_def)

text \<open>
  C10, as amended. Take two calls for the same domain \<open>d\<close>, any engine, and any
  interleaving of the steps of the two calls. In the final stored state the write of one
  of the two callers stands: \<open>d\<close> is in the stored list exactly when that caller asked to
  disable blocking, and the stored time stamp is that caller's; the other domains of the
  list are those that were stored before. The claim as written rests this on each toggle
  doing its read, its mutation and its write as one atomic unit, which the code does not
  do: the other call can read and write in between, and the list stored at the end can
  differ from the list after either order of running the two calls one after the other.
\<close>

theorem concurrent_toggles_last_write_stands:
  assumes "s \<in> shuffles (program CallerA callA) (program CallerB callB)"
    and "call_domain callA = d" and "call_domain callB = d"
  shows "set (exemptionSet (shared (runSchedule A callA callB s (start w)))) - {d}
           = set (exemptionSet w) - {d}
   \<and> ((d \<in> set (exemptionSet (shared (runSchedule A callA callB s (start w))))) = (\<not> call_enabled callA)
        \<and> lastUpdate (shared (runSchedule A callA callB s (start w))) = Some (call_now callA)
      \<or> (d \<in> set (exemptionSet (shared (runSchedule A callA callB s (start w))))) = (\<not> call_enabled callB)
        \<and> lastUpdate (shared (runSchedule A callA callB s (start w))) = Some (call_now callB))"
proof -
  define f where "f = shared (runSchedule A callA callB s (start w))"
  have ma: "\<And>ds. (d \<in> set (mutated callA ds)) = (\<not> call_enabled callA)"
    "\<And>ds. set (mutated callA ds) - {d} = set ds - {d}"
    using assms(2) mutated_member [of callA] mutated_others [of callA] by auto
  have mb: "\<And>ds. (d \<in> set (mutated callB ds)) = (\<not> call_enabled callB)"
    "\<And>ds. set (mutated callB ds) - {d} = set ds - {d}"
    using assms(3) mutated_member [of callB] mutated_others [of callB] by auto
  have ex: "\<And>ds. disabledDomains f = Some ds \<Longrightarrow> exemptionSet f = ds"
    by (simp add: exemptionSet_def)
  from final_view [OF assms(1), of A w]
  consider "exemptionSet f = mutated callA (exemptionSet w)" "lastUpdate f = Some (call_now callA)"
    | "exemptionSet f = mutated callA (mutated callB (exemptionSet w))" "lastUpdate f = Some (call_now callA)"
    | "exemptionSet f = mutated callB (exemptionSet w)" "lastUpdate f = Some (call_now callB)"
    | "exemptionSet f = mutated callB (mutated callA (exemptionSet w))" "lastUpdate f = Some (call_now callB)"
    unfolding f_def [symmetric] using ex by blast
  then have "set (exemptionSet f) - {d} = set (exemptionSet w) - {d}
   \<and> ((d \<in> set (exemptionSet f)) = (\<not> call_enabled callA)
        \<and> lastUpdate f = Some (call_now callA)
      \<or> (d \<in> set (exemptionSet f)) = (\<not> call_enabled callB)
        \<and> lastUpdate f = Some (call_now callB))"
    by cases (simp_all add: ma mb)
  then show ?thesis unfolding f_def .
qed

theorem concurrent_toggles_last_write_stands_witness:
  "set (exemptionSet (shared (runSchedule (spec_adapter Rejects) callDisable callEnable
          staleSchedule (start twoExempted)))) - {str ''x.com''}
           = set (exemptionSet twoExempted) - {str ''x.com''}
   \<and> ((str ''x.com'' \<in> set (exemptionSet (shared (runSchedule (spec_adapter Rejects) callDisable
            callEnable staleSchedule (start twoExempted))))) = (\<not> call_enabled callDisable)
        \<and> lastUpdate (shared (runSchedule (spec_adapter Rejects) callDisable callEnable
            staleSchedule (start twoExempted))) = Some (call_now callDisable)
      \<or> (str ''x.com'' \<in> set (exemptionSet (shared (runSchedule (spec_adapter Rejects) callDisable
            callEnable staleSchedule (start twoExempted))))) = (\<not> call_enabled callEnable)
        \<and> lastUpdate (shared (runSchedule (spec_adapter Rejects) callDisable callEnable
            staleSchedule (start twoExempted))) = Some (call_now callEnable))"
proof -
  have s: "staleSchedule \<in> shuffles (program CallerA callDisable) (program CallerB callEnable)"
    by (simp add: staleSchedule_def program_def stepsOf_def callDisable_def callEnable_def)
  have a: "call_domain callDisable = str ''x.com''" by (simp add: callDisable_def)
  have b: "call_domain callEnable = str ''x.com''" by (simp add: callEnable_def)
  show ?thesis by (rule concurrent_toggles_last_write_stands [OF s a b])
qed

text \<open>
  The counterexample to C10 as written. The stored list is \<open>x.com, y.org\<close>; caller A
  exempts \<open>x.com\<close>, caller B blocks it. B reads and writes between the read and the write
  of A: when A comes to write, the stored list is \<open>y.org\<close>, and A writes back the list
  it read before B removed \<open>x.com\<close>, so the list at the end is \<open>x.com, y.org\<close>. Were each toggle an atomic unit, the end would be that of one of the
  two orders: \<open>y.org\<close> after A then B, or \<open>y.org, x.com\<close> after B then A.
\<close>

theorem concurrent_toggles_counterexample:
  "staleSchedule \<in> shuffles (program CallerA callDisable) (program CallerB callEnable)
   \<and> exemptionSet twoExempted = [str ''x.com'', str ''y.org'']
   \<and> exemptionSet (shared (runSchedule (spec_adapter Rejects) callDisable callEnable
        [(CallerA, ReadStorage), (CallerB, ReadStorage), (CallerB, WriteStorage),
         (CallerB, EngineFirst)]
        (start twoExempted))) = [str ''y.org'']
   \<and> exemptionSet (shared (runSchedule (spec_adapter Rejects) callDisable callEnable staleSchedule
        (start twoExempted))) = [str ''x.com'', str ''y.org'']
   \<and> exemptionSet
        (world_of (toggleRulesetFuerDomain (spec_adapter Rejects) 4 (str ''x.com'') True
          (world_of (toggleRulesetFuerDomain (spec_adapter Rejects) 3 (str ''x.com'') False
             twoExempted)))) = [str ''y.org'']
   \<and> exemptionSet
        (world_of (toggleRulesetFuerDomain (spec_adapter Rejects) 3 (str ''x.com'') False
          (world_of (toggleRulesetFuerDomain (spec_adapter Rejects) 4 (str ''x.com'') True
             twoExempted)))) = [str ''y.org'', str ''x.com'']"
proof (intro conjI)
  show "staleSchedule \<in> shuffles (program CallerA callDisable) (program CallerB callEnable)"
    by (rule staleSchedule_shuffle)
  have neq: "str ''y.org'' \<noteq> str ''x.com''" by (simp add: str_def ch_def)
  show base: "exemptionSet twoExempted = [str ''x.com'', str ''y.org'']"
    using neq by (simp add: twoExempted_def exemptionSet_toggle) (simp add: exemptionSet_def freshWorld_def)
  show "exemptionSet (world_of (toggleRulesetFuerDomain (spec_adapter Rejects) 4 (str ''x.com'') True
          (world_of (toggleRulesetFuerDomain (spec_adapter Rejects) 3 (str ''x.com'') False
             twoExempted)))) = [str ''y.org'']"
    using neq by (simp add: exemptionSet_toggle base)
  show "exemptionSet (world_of (toggleRulesetFuerDomain (spec_adapter Rejects) 3 (str ''x.com'') False
          (world_of (toggleRulesetFuerDomain (spec_adapter Rejects) 4 (str ''x.com'') True
             twoExempted)))) = [str ''y.org'', str ''x.com'']"
    using neq by (simp add: exemptionSet_toggle base)
  have "storedList (viewOf (runSchedule (spec_adapter Rejects) callDisable callEnable
        [(CallerA, ReadStorage), (CallerB, ReadStorage), (CallerB, WriteStorage),
         (CallerB, EngineFirst)]
        (start twoExempted))) = Some (mutated callEnable (exemptionSet twoExempted))"
    by (simp add: viewOf_run viewOf_start listOf_def exemptionSet_def)
  then have "disabledDomains (shared (runSchedule (spec_adapter Rejects) callDisable callEnable
        [(CallerA, ReadStorage), (CallerB, ReadStorage), (CallerB, WriteStorage),
         (CallerB, EngineFirst)]
        (start twoExempted))) = Some (mutated callEnable (exemptionSet twoExempted))"
    by (simp add: viewOf_def)
  then show "exemptionSet (shared (runSchedule (spec_adapter Rejects) callDisable callEnable
        [(CallerA, ReadStorage), (CallerB, ReadStorage), (CallerB, WriteStorage),
         (CallerB, EngineFirst)]
        (start twoExempted))) = [str ''y.org'']"
    using neq by (simp add: exemptionSet_def [of "shared _"] base mutated_def callEnable_def)
  have "storedList (viewOf (runSchedule (spec_adapter Rejects) callDisable callEnable staleSchedule
        (start twoExempted))) = Some (mutated callDisable (exemptionSet twoExempted))"
    by (simp add: viewOf_run viewOf_start staleSchedule_def listOf_def exemptionSet_def)
  then have "disabledDomains (shared (runSchedule (spec_adapter Rejects) callDisable callEnable
        staleSchedule (start twoExempted))) = Some (mutated callDisable (exemptionSet twoExempted))"
    by (simp add: viewOf_def)
  then show "exemptionSet (shared (runSchedule (spec_adapter Rejects) callDisable callEnable staleSchedule
        (start twoExempted))) = [str ''x.com'', str ''y.org'']"
    by (simp add: exemptionSet_def [of "shared _"] base mutated_def callDisable_def)
qed

end
